theory Spec2Isabelle
  imports Main "HOL-Library.Sublist"
begin

section \<open>Settings (config/settings.py)\<close>

text \<open>
  The point-buy constants are literals of the \<^verbatim>\<open>Settings\<close> class. The two round
  parameters are read from the process environment when the module is loaded, so they are
  fields of a record; \<open>default_settings\<close> holds the defaults of the source.
\<close>

definition STAT_POINT_BUY_MAX :: int where
  "STAT_POINT_BUY_MAX = 27"

definition STAT_MAX :: int where
  "STAT_MAX = 15"

definition STAT_MIN :: int where
  "STAT_MIN = 8"

definition STAT_POINT_COSTS :: "(int \<times> int) list" where
  "STAT_POINT_COSTS =
     [(8, 0), (9, 1), (10, 2), (11, 3), (12, 4), (13, 5),
      (14, 7), (15, 9), (16, 12), (17, 15), (18, 19)]"

record settings =
  ROUND_TIMEOUT_SECONDS :: int
  MIN_PLAYERS_FOR_ROUND :: int

definition default_settings :: settings where
  "default_settings = \<lparr>ROUND_TIMEOUT_SECONDS = 300, MIN_PLAYERS_FOR_ROUND = 1\<rparr>"

section \<open>Stat validation (bot/game/validation.py)\<close>

text \<open>
  A Python dict iterates in insertion order, so the stat block is an association list with
  one entry per key. The error messages of the source are formatted strings; the model
  keeps what each message is built from.
\<close>

datatype stat_error =
    MissingStat string
  | ExceedsMaximum string int
  | BelowMinimum string int
  | InvalidValue string int
  | TotalExceeded int

definition required_stats :: "string list" where
  "required_stats = [''STR'', ''DEX'', ''CON'', ''INT'', ''WIS'', ''CHA'']"

fun check_required :: "string list \<Rightarrow> (string \<times> int) list \<Rightarrow> stat_error option" where
  "check_required [] stats = None"
| "check_required (s # ss) stats =
     (if map_of stats s = None then Some (MissingStat s) else check_required ss stats)"

fun check_limits :: "(string \<times> int) list \<Rightarrow> stat_error option" where
  "check_limits [] = None"
| "check_limits ((stat_name, v) # rest) =
     (if v > STAT_MAX then Some (ExceedsMaximum stat_name v)
      else if v < STAT_MIN then Some (BelowMinimum stat_name v)
      else check_limits rest)"

fun sum_points :: "int \<Rightarrow> (string \<times> int) list \<Rightarrow> stat_error + int" where
  "sum_points total_points [] = Inr total_points"
| "sum_points total_points ((stat_name, v) # rest) =
     (case map_of STAT_POINT_COSTS v of
        Some c \<Rightarrow> sum_points (total_points + c) rest
      | None \<Rightarrow> Inl (InvalidValue stat_name v))"

definition validate_stat_allocation :: "(string \<times> int) list \<Rightarrow> bool \<times> stat_error option" where
  "validate_stat_allocation stats =
     (case check_required required_stats stats of
        Some e \<Rightarrow> (False, Some e)
      | None \<Rightarrow>
          (case check_limits stats of
             Some e \<Rightarrow> (False, Some e)
           | None \<Rightarrow>
               (case sum_points 0 stats of
                  Inl e \<Rightarrow> (False, Some e)
                | Inr total_points \<Rightarrow>
                    if total_points > STAT_POINT_BUY_MAX
                    then (False, Some (TotalExceeded total_points))
                    else (True, None))))"

definition thorne_stats :: "(string \<times> int) list" where
  "thorne_stats =
     [(''STR'', 15), (''DEX'', 12), (''CON'', 14), (''INT'', 10), (''WIS'', 13), (''CHA'', 13)]"

definition all_18_stats :: "(string \<times> int) list" where
  "all_18_stats =
     [(''STR'', 18), (''DEX'', 18), (''CON'', 18), (''INT'', 18), (''WIS'', 18), (''CHA'', 18)]"

section \<open>Data model (bot/game/models.py)\<close>

text \<open>
  Each table is the list of its rows, in the order the store returns them. Columns that no
  function below reads (backstory, stats, inventory, guild, creator, creation times, the
  encounter list and the action result) are left out. A \<^verbatim>\<open>DateTime\<close> is the
  number of microseconds since the epoch, the resolution of Python's \<^verbatim>\<open>datetime\<close>;
  the ISO strings that \<^verbatim>\<open>get_game_state\<close> puts in the snapshot order the same way.
\<close>

datatype GameStatus = WAITING | ACTIVE | PAUSED | ENDED

fun status_value :: "GameStatus \<Rightarrow> string" where
  "status_value WAITING = ''waiting''"
| "status_value ACTIVE = ''active''"
| "status_value PAUSED = ''paused''"
| "status_value ENDED = ''ended''"

datatype LogType = NARRATIVE | COMBAT | SYSTEM

record Player =
  p_id :: int
  p_platform_user_id :: string
  p_name :: string
  p_class_name :: string
  p_hp :: int
  p_max_hp :: int

record Game =
  g_id :: int
  g_channel_id :: string
  g_name :: "string option"
  g_status :: GameStatus
  g_current_location :: "string option"
  g_campaign_name :: "string option"

record GamePlayer =
  gp_game_id :: int
  gp_player_id :: int

record GameSession =
  s_game_id :: int
  s_round_number :: int
  s_current_turn :: "int option"
  s_updated_at :: int

record Action =
  a_id :: int
  a_game_id :: int
  a_player_id :: int
  a_action_text :: string
  a_timestamp :: int
  a_processed :: bool

record GameLog =
  l_game_id :: int
  l_message :: string
  l_timestamp :: int
  l_log_type :: LogType

record DB =
  games :: "Game list"
  sessions :: "GameSession list"
  players :: "Player list"
  game_players :: "GamePlayer list"
  actions :: "Action list"
  logs :: "GameLog list"

section \<open>The store's failures\<close>

text \<open>
  \<^verbatim>\<open>db.commit()\<close> either makes the pending writes durable or raises and leaves the
  durable rows as they were. The \<open>DB\<close> value threaded through the functions is the
  durable content. Which commits of one call raise is an input: one flag for each commit
  that \<^verbatim>\<open>process_round\<close> can reach, in the order it reaches them.
\<close>

datatype exn = CommitFailed

record faults =
  session_create_fails :: bool
  mark_processed_fails :: bool
  round_update_fails :: bool
  log_event_fails :: bool

definition no_faults :: faults where
  "no_faults = \<lparr>session_create_fails = False, mark_processed_fails = False,
                 round_update_fails = False, log_event_fails = False\<rparr>"

section \<open>Strings\<close>

fun join :: "string \<Rightarrow> string list \<Rightarrow> string" where
  "join sep [] = []"
| "join sep [x] = x"
| "join sep (x # y # ys) = x @ sep @ join sep (y # ys)"

fun digits :: "nat \<Rightarrow> string" where
  "digits n =
     (if n < 10 then [char_of (48 + n)]
      else digits (n div 10) @ [char_of (48 + n mod 10)])"

definition str_int :: "int \<Rightarrow> string" where
  "str_int i = (if i < 0 then CHR ''-'' # digits (nat (- i)) else digits (nat i))"

section \<open>Game state (bot/game/state.py)\<close>

record pending_action =
  pa_id :: int
  pa_player_id :: int
  pa_action_text :: string
  pa_timestamp :: int

record game_state =
  gs_game_id :: int
  gs_name :: "string option"
  gs_status :: string
  gs_current_location :: "string option"
  gs_campaign_name :: "string option"
  gs_round_number :: int
  gs_current_turn :: "int option"
  gs_players :: "Player list"
  gs_pending_actions :: "pending_action list"
  gs_recent_logs :: "GameLog list"

definition new_session :: "int \<Rightarrow> int \<Rightarrow> GameSession" where
  "new_session gid now =
     \<lparr>s_game_id = gid, s_round_number = 1, s_current_turn = None, s_updated_at = now\<rparr>"

definition roster :: "DB \<Rightarrow> int \<Rightarrow> Player list" where
  "roster db gid =
     (let player_ids = map gp_player_id (filter (\<lambda>gp. gp_game_id gp = gid) (game_players db))
      in if player_ids = [] then []
         else filter (\<lambda>p. p_id p \<in> set player_ids) (players db))"

definition recent_logs :: "DB \<Rightarrow> int \<Rightarrow> GameLog list" where
  "recent_logs db gid =
     take 10 (sort_key (\<lambda>l. - l_timestamp l) (filter (\<lambda>l. l_game_id l = gid) (logs db)))"

definition serialize_action :: "Action \<Rightarrow> pending_action" where
  "serialize_action a =
     \<lparr>pa_id = a_id a, pa_player_id = a_player_id a,
      pa_action_text = a_action_text a, pa_timestamp = a_timestamp a\<rparr>"

definition pending_actions_of :: "DB \<Rightarrow> int \<Rightarrow> pending_action list" where
  "pending_actions_of db gid =
     map serialize_action
       (sort_key a_timestamp
          (filter (\<lambda>a. a_game_id a = gid \<and> \<not> a_processed a) (actions db)))"

definition snapshot :: "Game \<Rightarrow> GameSession \<Rightarrow> DB \<Rightarrow> int \<Rightarrow> game_state" where
  "snapshot game session db gid =
     \<lparr>gs_game_id = g_id game,
      gs_name = g_name game,
      gs_status = status_value (g_status game),
      gs_current_location = g_current_location game,
      gs_campaign_name = g_campaign_name game,
      gs_round_number = s_round_number session,
      gs_current_turn = s_current_turn session,
      gs_players = roster db gid,
      gs_pending_actions = pending_actions_of db gid,
      gs_recent_logs = recent_logs db gid\<rparr>"

text \<open>
  \<^verbatim>\<open>get_game_state\<close> returns the empty dict for an unknown game, which its caller
  tests for falsity: here \<open>None\<close>. A game without a session row gets one, with round
  number 1, committed before anything else is read. Rows with equal timestamps keep the
  order of the table in the two sorted queries.
\<close>

definition get_game_state :: "int \<Rightarrow> faults \<Rightarrow> int \<Rightarrow> DB \<Rightarrow> (exn + game_state option) \<times> DB" where
  "get_game_state now f gid db =
     (case find (\<lambda>g. g_id g = gid) (games db) of
        None \<Rightarrow> (Inr None, db)
      | Some game \<Rightarrow>
          (case find (\<lambda>s. s_game_id s = gid) (sessions db) of
             Some session \<Rightarrow> (Inr (Some (snapshot game session db gid)), db)
           | None \<Rightarrow>
               if session_create_fails f then (Inl CommitFailed, db)
               else
                 (let session = new_session gid now;
                      db1 = db\<lparr>sessions := sessions db @ [session]\<rparr>
                  in (Inr (Some (snapshot game session db1 gid)), db1))))"

definition log_game_event :: "int \<Rightarrow> faults \<Rightarrow> int \<Rightarrow> string \<Rightarrow> LogType \<Rightarrow> DB \<Rightarrow> (exn + unit) \<times> DB" where
  "log_game_event now f gid message log_type db =
     (if log_event_fails f then (Inl CommitFailed, db)
      else (Inr (),
            db\<lparr>logs := logs db @
               [\<lparr>l_game_id = gid, l_message = message, l_timestamp = now,
                 l_log_type = log_type\<rparr>]\<rparr>))"

definition mark_actions_processed :: "faults \<Rightarrow> int \<Rightarrow> int list \<Rightarrow> DB \<Rightarrow> (exn + unit) \<times> DB" where
  "mark_actions_processed f gid action_ids db =
     (if mark_processed_fails f then (Inl CommitFailed, db)
      else (Inr (),
            db\<lparr>actions :=
                 map (\<lambda>a. if a_game_id a = gid \<and> a_id a \<in> set action_ids
                          then a\<lparr>a_processed := True\<rparr> else a)
                     (actions db)\<rparr>))"

section \<open>Round scheduling (bot/game/engine.py)\<close>

text \<open>
  \<^verbatim>\<open>min(pending_actions, key=...)\<close> returns the first element with the least key.
\<close>

fun min_by_timestamp :: "pending_action \<Rightarrow> pending_action list \<Rightarrow> pending_action" where
  "min_by_timestamp best [] = best"
| "min_by_timestamp best (x # xs) =
     min_by_timestamp (if pa_timestamp x < pa_timestamp best then x else best) xs"

definition should_process_round ::
  "settings \<Rightarrow> int \<Rightarrow> game_state \<Rightarrow> pending_action list \<Rightarrow> bool \<Rightarrow> bool" where
  "should_process_round cfg now gs pending force =
     (if force then True
      else if pending = [] then False
      else
        (let num_players = length (gs_players gs);
             num_actions = length pending
         in if int num_actions \<ge> MIN_PLAYERS_FOR_ROUND cfg then
              (let unique_acting_players = length (remdups (map pa_player_id pending))
               in if unique_acting_players \<ge> num_players then True
                  else
                    (case pending of
                       [] \<Rightarrow> False
                     | first # others \<Rightarrow>
                         (let oldest_action = min_by_timestamp first others;
                              time_since_oldest = now - pa_timestamp oldest_action
                          in time_since_oldest \<ge> ROUND_TIMEOUT_SECONDS cfg * 1000000)))
            else False))"

section \<open>Round resolution (bot/game/engine.py)\<close>

record player_action =
  player_name :: string
  action_text :: string

text \<open>
  The narrator is the callback the engine is built with. One call of it either returns a
  string or \<^verbatim>\<open>None\<close>, or raises.
\<close>

datatype callback_result = Returned "string option" | Raised

type_synonym ai_callback = "game_state \<Rightarrow> player_action list \<Rightarrow> callback_result"

definition truthy :: "string option \<Rightarrow> bool" where
  "truthy n = (case n of None \<Rightarrow> False | Some s \<Rightarrow> s \<noteq> [])"

text \<open>
  The loop over the pending actions fills two lists in step, \<^verbatim>\<open>player_actions\<close> and
  \<^verbatim>\<open>action_ids\<close>; here it builds the list of their pairs. An action whose player is
  neither in the snapshot's roster nor in the player table adds nothing to either.
\<close>

fun prepare_actions ::
  "DB \<Rightarrow> Player list \<Rightarrow> pending_action list \<Rightarrow> (player_action \<times> int) list" where
  "prepare_actions db roster_players [] = []"
| "prepare_actions db roster_players (action_data # rest) =
     (case find (\<lambda>p. p_id p = pa_player_id action_data) roster_players of
        Some player \<Rightarrow>
          (\<lparr>player_name = p_name player, action_text = pa_action_text action_data\<rparr>,
           pa_id action_data) # prepare_actions db roster_players rest
      | None \<Rightarrow>
          (case find (\<lambda>p. p_id p = pa_player_id action_data) (players db) of
             Some player_obj \<Rightarrow>
               (\<lparr>player_name = p_name player_obj, action_text = pa_action_text action_data\<rparr>,
                pa_id action_data) # prepare_actions db roster_players rest
           | None \<Rightarrow> prepare_actions db roster_players rest))"

definition actions_unfold :: "player_action list \<Rightarrow> string" where
  "actions_unfold player_actions =
     ''*The actions unfold: '' @ join '', '' (map action_text player_actions) @ ''*''"

definition generate_narrative ::
  "ai_callback option \<Rightarrow> game_state \<Rightarrow> player_action list \<Rightarrow> string option" where
  "generate_narrative cb gs player_actions =
     (if player_actions = [] then None
      else
        (case cb of
           Some callback \<Rightarrow>
             (case callback gs player_actions of
                Returned narrative \<Rightarrow> narrative
              | Raised \<Rightarrow> Some (actions_unfold player_actions))
         | None \<Rightarrow> Some (actions_unfold player_actions)))"

fun update_first :: "('a \<Rightarrow> bool) \<Rightarrow> ('a \<Rightarrow> 'a) \<Rightarrow> 'a list \<Rightarrow> 'a list" where
  "update_first P g [] = []"
| "update_first P g (x # xs) = (if P x then g x # xs else x # update_first P g xs)"

definition update_round :: "int \<Rightarrow> faults \<Rightarrow> int \<Rightarrow> DB \<Rightarrow> (exn + unit) \<times> DB" where
  "update_round now f gid db =
     (case find (\<lambda>s. s_game_id s = gid) (sessions db) of
        None \<Rightarrow> (Inr (), db)
      | Some session \<Rightarrow>
          if round_update_fails f then (Inl CommitFailed, db)
          else (Inr (),
                db\<lparr>sessions :=
                     update_first (\<lambda>s. s_game_id s = gid)
                       (\<lambda>s. s\<lparr>s_round_number := s_round_number s + 1,
                               s_current_turn := None, s_updated_at := now\<rparr>)
                       (sessions db)\<rparr>))"

definition round_message :: "game_state \<Rightarrow> string \<Rightarrow> string" where
  "round_message gs narrative =
     ''**Round '' @ str_int (gs_round_number gs) @ ''**'' @ [CHR 0x0A] @ narrative"

text \<open>
  Lines 121 to 141: three writes, each with a commit of its own. A commit that raises ends
  the sequence there.
\<close>

definition commit_round ::
  "int \<Rightarrow> faults \<Rightarrow> int \<Rightarrow> game_state \<Rightarrow> int list \<Rightarrow> string option \<Rightarrow> DB
     \<Rightarrow> (exn + string option) \<times> DB" where
  "commit_round now f gid gs action_ids narrative db =
     (case (if action_ids \<noteq> [] then mark_actions_processed f gid action_ids db
            else (Inr (), db)) of
        (Inl e, db2) \<Rightarrow> (Inl e, db2)
      | (Inr u, db2) \<Rightarrow>
          (case update_round now f gid db2 of
             (Inl e, db3) \<Rightarrow> (Inl e, db3)
           | (Inr u, db3) \<Rightarrow>
               if truthy narrative then
                 (case log_game_event now f gid (round_message gs (the narrative)) NARRATIVE db3 of
                    (Inl e, db4) \<Rightarrow> (Inl e, db4)
                  | (Inr u, db4) \<Rightarrow> (Inr narrative, db4))
               else (Inr narrative, db3)))"

text \<open>
  The body of the \<^verbatim>\<open>try\<close> block: \<open>Inl\<close> is an exception leaving it. The clock
  is read once for the call: \<open>now\<close> stands for every \<^verbatim>\<open>datetime.utcnow()\<close> in it.
\<close>

definition process_round_try ::
  "settings \<Rightarrow> int \<Rightarrow> faults \<Rightarrow> ai_callback option \<Rightarrow> int \<Rightarrow> bool \<Rightarrow> DB
     \<Rightarrow> (exn + string option) \<times> DB" where
  "process_round_try cfg now f cb gid force db =
     (case get_game_state now f gid db of
        (Inl e, db1) \<Rightarrow> (Inl e, db1)
      | (Inr None, db1) \<Rightarrow> (Inr None, db1)
      | (Inr (Some gs), db1) \<Rightarrow>
          if gs_status gs \<noteq> ''active'' then (Inr None, db1)
          else
            (let pending = gs_pending_actions gs
             in if pending = [] \<and> \<not> force then (Inr None, db1)
                else if \<not> should_process_round cfg now gs pending force then (Inr None, db1)
                else
                  (let prepared = prepare_actions db1 (gs_players gs) pending;
                       player_actions = map fst prepared;
                       action_ids = map snd prepared;
                       narrative = generate_narrative cb gs player_actions
                   in commit_round now f gid gs action_ids narrative db1)))"

text \<open>
  \<^verbatim>\<open>process_round\<close> itself: the engine's state is the store and the keys of
  \<^verbatim>\<open>active_rounds\<close>. The result is \<open>Inl\<close> if an exception leaves the call and
  \<open>Inr\<close> of the returned value otherwise; \<^verbatim>\<open>except Exception\<close> turns what the body
  raises into the return value \<^verbatim>\<open>None\<close>, and \<^verbatim>\<open>finally\<close> removes the key.
\<close>

definition process_round ::
  "settings \<Rightarrow> int \<Rightarrow> faults \<Rightarrow> ai_callback option \<Rightarrow> int \<Rightarrow> bool \<Rightarrow> DB \<times> int set
     \<Rightarrow> (exn + string option) \<times> (DB \<times> int set)" where
  "process_round cfg now f cb gid force st =
     (case st of
        (db, active_rounds) \<Rightarrow>
          if gid \<in> active_rounds then (Inr None, (db, active_rounds))
          else
            (let held = insert gid active_rounds
             in case process_round_try cfg now f cb gid force db of
                  (Inl e, db') \<Rightarrow> (Inr None, (db', held - {gid}))
                | (Inr narrative, db') \<Rightarrow> (Inr narrative, (db', held - {gid}))))"

definition next_action_id :: "DB \<Rightarrow> int" where
  "next_action_id db = fold max (map a_id (actions db)) 0 + 1"

definition queue_action ::
  "int \<Rightarrow> bool \<Rightarrow> int \<Rightarrow> int \<Rightarrow> string \<Rightarrow> DB \<Rightarrow> (exn + Action) \<times> DB" where
  "queue_action now commit_fails gid pid text db =
     (if commit_fails then (Inl CommitFailed, db)
      else
        (let action = \<lparr>a_id = next_action_id db, a_game_id = gid, a_player_id = pid,
                       a_action_text = text, a_timestamp = now, a_processed = False\<rparr>
         in (Inr action, db\<lparr>actions := actions db @ [action]\<rparr>)))"

section \<open>The Ollama narrator (bot/ai/ollama_client.py)\<close>

text \<open>
  What the HTTP request of \<^verbatim>\<open>generate_story\<close> comes to is an input: a 200 response
  with the text of its \<^verbatim>\<open>response\<close> field (the empty string when the field is absent),
  another status, or an exception, which includes the timeout. The prompt only travels to
  the server and is not modelled. In the response text a character stands for a code
  point below 256, and \<open>is_space\<close> holds of the code points in that range that
  \<^verbatim>\<open>str.strip()\<close> removes: U+0009 to U+000D, U+001C to U+0020, U+0085 and U+00A0.
\<close>

datatype http_outcome = Status200 string | StatusOther nat | ClientError | OtherError

definition party_waits :: string where
  "party_waits = ''*The party waits, watching the world around them...*''"

definition fallback_narrative :: "player_action list \<Rightarrow> string" where
  "fallback_narrative player_actions =
     (if player_actions = [] then party_waits
      else
        (let action_summary =
               join '', '' (map (\<lambda>a. player_name a @ '' '' @ action_text a) player_actions)
         in ''*The party acts: '' @ action_summary @ ''. The world responds...*''))"

definition is_space :: "char \<Rightarrow> bool" where
  "is_space c =
     (c \<in> set [CHR 0x09, CHR 0x0A, CHR 0x0B, CHR 0x0C, CHR 0x0D,
                 CHR 0x1C, CHR 0x1D, CHR 0x1E, CHR 0x1F, CHR 0x20, CHR 0x85, CHR 0xA0])"

definition strip :: "string \<Rightarrow> string" where
  "strip s = rev (dropWhile is_space (rev (dropWhile is_space s)))"

fun split_lines :: "string \<Rightarrow> string list" where
  "split_lines [] = [[]]"
| "split_lines (c # cs) =
     (if c = CHR 0x0A then [] # split_lines cs
      else (case split_lines cs of
              [] \<Rightarrow> [[c]]
            | l # ls \<Rightarrow> (c # l) # ls))"

definition clean_response :: "string \<Rightarrow> string" where
  "clean_response generated_text =
     (let stripped = strip generated_text
      in if prefix [CHR 0x60, CHR 0x60, CHR 0x60] stripped
         then join [CHR 0x0A] (butlast (tl (split_lines stripped)))
         else stripped)"

definition generate_story :: "http_outcome \<Rightarrow> ai_callback" where
  "generate_story http gs player_actions =
     (case http of
        Status200 text \<Rightarrow> Returned (Some (clean_response text))
      | StatusOther code \<Rightarrow> Returned (Some (fallback_narrative player_actions))
      | ClientError \<Rightarrow> Returned (Some (fallback_narrative player_actions))
      | OtherError \<Rightarrow> Returned (Some (fallback_narrative player_actions)))"

section \<open>Observations and example data\<close>

definition round_of :: "DB \<Rightarrow> int \<Rightarrow> int option" where
  "round_of db gid = map_option s_round_number (find (\<lambda>s. s_game_id s = gid) (sessions db))"

definition turn_of :: "DB \<Rightarrow> int \<Rightarrow> int option option" where
  "turn_of db gid = map_option s_current_turn (find (\<lambda>s. s_game_id s = gid) (sessions db))"

text \<open>The round number a game is at: that of its session row, or 1 before the row exists.\<close>

definition round_base :: "DB \<Rightarrow> int \<Rightarrow> int" where
  "round_base db gid = (case round_of db gid of None \<Rightarrow> 1 | Some n \<Rightarrow> n)"

definition mark_rows :: "int \<Rightarrow> int list \<Rightarrow> Action list \<Rightarrow> Action list" where
  "mark_rows gid action_ids rows =
     map (\<lambda>a. if a_game_id a = gid \<and> a_id a \<in> set action_ids
              then a\<lparr>a_processed := True\<rparr> else a) rows"

definition advance_rows :: "int \<Rightarrow> int \<Rightarrow> GameSession list \<Rightarrow> GameSession list" where
  "advance_rows now gid rows =
     update_first (\<lambda>s. s_game_id s = gid)
       (\<lambda>s. s\<lparr>s_round_number := s_round_number s + 1, s_current_turn := None,
               s_updated_at := now\<rparr>) rows"

definition narrative_row :: "int \<Rightarrow> int \<Rightarrow> game_state \<Rightarrow> string \<Rightarrow> GameLog" where
  "narrative_row now gid gs text =
     \<lparr>l_game_id = gid, l_message = round_message gs text, l_timestamp = now,
      l_log_type = NARRATIVE\<rparr>"

definition thorne :: Player where
  "thorne = \<lparr>p_id = 1, p_platform_user_id = ''user-1'', p_name = ''Thorne'',
             p_class_name = ''Paladin'', p_hp = 20, p_max_hp = 20\<rparr>"

definition mira :: Player where
  "mira = \<lparr>p_id = 2, p_platform_user_id = ''user-2'', p_name = ''Mira'',
           p_class_name = ''Wizard'', p_hp = 20, p_max_hp = 20\<rparr>"

definition game1 :: "GameStatus \<Rightarrow> Game" where
  "game1 st = \<lparr>g_id = 1, g_channel_id = ''channel-1'', g_name = Some ''Game in #channel-1'',
               g_status = st, g_current_location = Some ''Starting Location'',
               g_campaign_name = Some ''Campaign''\<rparr>"

definition attack :: Action where
  "attack = \<lparr>a_id = 1, a_game_id = 1, a_player_id = 1, a_action_text = ''attacks'',
             a_timestamp = 0, a_processed = False\<rparr>"

definition thorne_session :: GameSession where
  "thorne_session =
     \<lparr>s_game_id = 1, s_round_number = 1, s_current_turn = Some 1, s_updated_at = 0\<rparr>"

text \<open>An active game in round 1 with one player, Thorne, and his one pending action.\<close>

definition thorne_db :: DB where
  "thorne_db =
     \<lparr>games = [game1 ACTIVE],
      sessions = [thorne_session],
      players = [thorne],
      game_players = [\<lparr>gp_game_id = 1, gp_player_id = 1\<rparr>],
      actions = [attack],
      logs = []\<rparr>"

definition thorne_gs :: game_state where
  "thorne_gs = snapshot (game1 ACTIVE) thorne_session thorne_db 1"

definition thorne_attacks :: player_action where
  "thorne_attacks = \<lparr>player_name = ''Thorne'', action_text = ''attacks''\<rparr>"

text \<open>The same game with nothing pending.\<close>

definition idle_db :: DB where
  "idle_db = thorne_db\<lparr>actions := []\<rparr>"

text \<open>A game that has not started and has no session row yet.\<close>

definition waiting_db :: DB where
  "waiting_db = thorne_db\<lparr>games := [game1 WAITING], sessions := []\<rparr>"

definition round_update_fault :: faults where
  "round_update_fault = no_faults\<lparr>round_update_fails := True\<rparr>"

definition raising :: ai_callback where
  "raising gs player_actions = Raised"

definition returning :: "string option \<Rightarrow> ai_callback" where
  "returning n gs player_actions = Returned n"

section \<open>Sequences of engine operations\<close>

text \<open>
  The path condition of lines 125 to 131: a call of \<^verbatim>\<open>process_round\<close> gets past the
  exclusion check, loads an active game, is let through by the scheduler, and neither the
  marking commit (made only when there is an action id to mark) nor the session commit
  raises.
\<close>

definition round_committed ::
  "settings \<Rightarrow> int \<Rightarrow> faults \<Rightarrow> int \<Rightarrow> bool \<Rightarrow> DB \<times> int set \<Rightarrow> bool" where
  "round_committed cfg now f gid force st =
     (case st of
        (db, active_rounds) \<Rightarrow>
          gid \<notin> active_rounds \<and>
          (case get_game_state now f gid db of
             (Inr (Some gs), db1) \<Rightarrow>
               gs_status gs = ''active''
               \<and> (gs_pending_actions gs \<noteq> [] \<or> force)
               \<and> should_process_round cfg now gs (gs_pending_actions gs) force
               \<and> \<not> (prepare_actions db1 (gs_players gs) (gs_pending_actions gs) \<noteq> []
                     \<and> mark_processed_fails f)
               \<and> \<not> round_update_fails f
           | (Inr None, db1) \<Rightarrow> False
           | (Inl e, db1) \<Rightarrow> False))"

text \<open>
  The operations of \<^verbatim>\<open>GameEngine\<close> that touch the store, each with the inputs of one
  call. \<^verbatim>\<open>process_all_active_games\<close> is the sequence of \<^verbatim>\<open>process_round\<close> calls
  for the active games, without force.
\<close>

datatype engine_op =
    ProcessRound int faults "ai_callback option" int bool
  | QueueAction int bool int int string

fun engine_step :: "settings \<Rightarrow> engine_op \<Rightarrow> DB \<times> int set \<Rightarrow> DB \<times> int set" where
  "engine_step cfg (ProcessRound now f cb gid force) st =
     snd (process_round cfg now f cb gid force st)"
| "engine_step cfg (QueueAction now commit_fails gid pid text) st =
     (snd (queue_action now commit_fails gid pid text (fst st)), snd st)"

fun run_ops :: "settings \<Rightarrow> engine_op list \<Rightarrow> DB \<times> int set \<Rightarrow> DB \<times> int set" where
  "run_ops cfg [] st = st"
| "run_ops cfg (x # xs) st = run_ops cfg xs (engine_step cfg x st)"

definition get_all_active_games :: "DB \<Rightarrow> Game list" where
  "get_all_active_games db = filter (\<lambda>g. g_status g = ACTIVE) (games db)"

definition process_all_active_games ::
  "settings \<Rightarrow> int \<Rightarrow> (int \<Rightarrow> faults) \<Rightarrow> ai_callback option \<Rightarrow> DB \<times> int set \<Rightarrow> DB \<times> int set" where
  "process_all_active_games cfg now fs cb st =
     run_ops cfg
       (map (\<lambda>game. ProcessRound now (fs (g_id game)) cb (g_id game) False)
          (get_all_active_games (fst st))) st"

fun commits_round :: "settings \<Rightarrow> int \<Rightarrow> engine_op \<Rightarrow> DB \<times> int set \<Rightarrow> bool" where
  "commits_round cfg g (ProcessRound now f cb gid force) st =
     (gid = g \<and> round_committed cfg now f gid force st)"
| "commits_round cfg g (QueueAction now commit_fails gid pid text) st = False"

fun rounds_resolved :: "settings \<Rightarrow> int \<Rightarrow> engine_op list \<Rightarrow> DB \<times> int set \<Rightarrow> nat" where
  "rounds_resolved cfg g [] st = 0"
| "rounds_resolved cfg g (x # xs) st =
     (if commits_round cfg g x st then 1 else 0)
       + rounds_resolved cfg g xs (engine_step cfg x st)"

section \<open>The scheduler as the specification words it\<close>

text \<open>
  Quorum in the words of the specification: every participant in the current roster has at
  least one pending action. The age of the oldest pending action is measured in
  microseconds, like the timestamps.
\<close>

definition quorum :: "Player list \<Rightarrow> pending_action list \<Rightarrow> bool" where
  "quorum roster_players pending =
     (\<forall>p\<in>set roster_players. \<exists>a\<in>set pending. pa_player_id a = p_id p)"

definition oldest_age :: "int \<Rightarrow> pending_action list \<Rightarrow> int" where
  "oldest_age now pending = now - Min (set (map pa_timestamp pending))"

definition should_resolve_spec ::
  "settings \<Rightarrow> int \<Rightarrow> Player list \<Rightarrow> pending_action list \<Rightarrow> bool \<Rightarrow> bool" where
  "should_resolve_spec cfg now roster_players pending force =
     (if force then True
      else if pending = [] then False
      else if int (length pending) \<ge> MIN_PLAYERS_FOR_ROUND cfg then
        (if quorum roster_players pending then True
         else oldest_age now pending > ROUND_TIMEOUT_SECONDS cfg * 1000000)
      else False)"

text \<open>Thorne and Mira in the roster; Thorne's action and one by a player outside it.\<close>

definition pair_gs :: game_state where
  "pair_gs = thorne_gs\<lparr>gs_players := [thorne, mira]\<rparr>"

definition outsider_action :: pending_action where
  "outsider_action =
     \<lparr>pa_id = 2, pa_player_id = 3, pa_action_text = ''sneaks'', pa_timestamp = 1\<rparr>"

section \<open>The coroutine at its suspension point\<close>

text \<open>
  \<^verbatim>\<open>process_round\<close> is a coroutine with one \<^verbatim>\<open>await\<close>, the call of the narrator at
  line 109. On the event loop everything before it runs without interruption, and so does
  everything after it; other coroutines run only while this one waits there.
  \<open>process_round_begin\<close> is the code up to the \<^verbatim>\<open>await\<close>: it either ends the call
  (busy, nothing to do, or no narrator call to make, in which case the commit follows at
  once) or leaves it suspended, with the token held and the local variables it will use
  afterwards. \<open>process_round_resume\<close> is the code from the narrator's answer to the end,
  run on the store as it is by then.
\<close>

record round_ctx =
  ctx_game_id :: int
  ctx_game_state :: game_state
  ctx_player_actions :: "player_action list"
  ctx_action_ids :: "int list"

datatype begin_result = Finished "exn + string option" | Suspended round_ctx

definition finish_round ::
  "int \<Rightarrow> faults \<Rightarrow> round_ctx \<Rightarrow> string option \<Rightarrow> DB \<times> int set
     \<Rightarrow> (exn + string option) \<times> (DB \<times> int set)" where
  "finish_round now f ctx narrative st =
     (case st of
        (db, held) \<Rightarrow>
          (case commit_round now f (ctx_game_id ctx) (ctx_game_state ctx)
                  (ctx_action_ids ctx) narrative db of
             (Inl e, db') \<Rightarrow> (Inr None, (db', held - {ctx_game_id ctx}))
           | (Inr n, db') \<Rightarrow> (Inr n, (db', held - {ctx_game_id ctx}))))"

definition process_round_begin ::
  "settings \<Rightarrow> int \<Rightarrow> faults \<Rightarrow> ai_callback option \<Rightarrow> int \<Rightarrow> bool \<Rightarrow> DB \<times> int set
     \<Rightarrow> begin_result \<times> (DB \<times> int set)" where
  "process_round_begin cfg now f cb gid force st =
     (case st of
        (db, active_rounds) \<Rightarrow>
          if gid \<in> active_rounds then (Finished (Inr None), (db, active_rounds))
          else
            (let held = insert gid active_rounds
             in case get_game_state now f gid db of
                  (Inl e, db1) \<Rightarrow> (Finished (Inr None), (db1, held - {gid}))
                | (Inr None, db1) \<Rightarrow> (Finished (Inr None), (db1, held - {gid}))
                | (Inr (Some gs), db1) \<Rightarrow>
                    if gs_status gs \<noteq> ''active'' then (Finished (Inr None), (db1, held - {gid}))
                    else
                      (let pending = gs_pending_actions gs
                       in if pending = [] \<and> \<not> force
                          then (Finished (Inr None), (db1, held - {gid}))
                          else if \<not> should_process_round cfg now gs pending force
                          then (Finished (Inr None), (db1, held - {gid}))
                          else
                            (let prepared = prepare_actions db1 (gs_players gs) pending;
                                 ctx = \<lparr>ctx_game_id = gid, ctx_game_state = gs,
                                        ctx_player_actions = map fst prepared,
                                        ctx_action_ids = map snd prepared\<rparr>
                             in if map fst prepared \<noteq> [] \<and> cb \<noteq> None
                                then (Suspended ctx, (db1, held))
                                else
                                  (case finish_round now f ctx
                                          (generate_narrative None gs (map fst prepared))
                                          (db1, held) of
                                     (r, st') \<Rightarrow> (Finished r, st'))))))"

definition process_round_resume ::
  "int \<Rightarrow> faults \<Rightarrow> round_ctx \<Rightarrow> callback_result \<Rightarrow> DB \<times> int set
     \<Rightarrow> (exn + string option) \<times> (DB \<times> int set)" where
  "process_round_resume now f ctx answer st =
     finish_round now f ctx
       (case answer of
          Returned narrative \<Rightarrow> narrative
        | Raised \<Rightarrow> Some (actions_unfold (ctx_player_actions ctx)))
       st"

section \<open>Calls interleaved on the event loop\<close>

text \<open>
  The event loop runs the calls of \<^verbatim>\<open>process_round\<close> as tasks. An event is one
  uninterrupted stretch of one task: a call starting and running to its end or to the
  \<^verbatim>\<open>await\<close>, a suspended call receiving the narrator's answer and running to its end, or
  an action being queued. A schedule is any list of events. The state of the loop is the
  engine's state, the suspended calls, and what the finished calls returned.
\<close>

datatype event =
    Start int bool int faults
  | Resume nat callback_result int faults
  | Enqueue int bool int int string

record loop_state =
  ls_store :: DB
  ls_active_rounds :: "int set"
  ls_suspended :: "nat \<Rightarrow> round_ctx option"
  ls_next_task :: nat
  ls_returned :: "(nat \<times> (exn + string option)) list"

definition initial :: "DB \<Rightarrow> loop_state" where
  "initial db =
     \<lparr>ls_store = db, ls_active_rounds = {}, ls_suspended = (\<lambda>t. None), ls_next_task = 0,
      ls_returned = []\<rparr>"

text \<open>
  A starting call gets the next task number. \<open>Resume\<close> names the task that the answer
  is for; an answer for a task that is not suspended changes nothing.
\<close>

fun loop_step :: "settings \<Rightarrow> ai_callback option \<Rightarrow> event \<Rightarrow> loop_state \<Rightarrow> loop_state" where
  "loop_step cfg cb (Start gid force now f) s =
     (case process_round_begin cfg now f cb gid force (ls_store s, ls_active_rounds s) of
        (Finished r, (db', held')) \<Rightarrow>
          s\<lparr>ls_store := db', ls_active_rounds := held',
            ls_next_task := Suc (ls_next_task s),
            ls_returned := ls_returned s @ [(ls_next_task s, r)]\<rparr>
      | (Suspended ctx, (db', held')) \<Rightarrow>
          s\<lparr>ls_store := db', ls_active_rounds := held',
            ls_suspended := (ls_suspended s)(ls_next_task s \<mapsto> ctx),
            ls_next_task := Suc (ls_next_task s)\<rparr>)"
| "loop_step cfg cb (Resume t answer now f) s =
     (case ls_suspended s t of
        None \<Rightarrow> s
      | Some ctx \<Rightarrow>
          (case process_round_resume now f ctx answer (ls_store s, ls_active_rounds s) of
             (r, (db', held')) \<Rightarrow>
               s\<lparr>ls_store := db', ls_active_rounds := held',
                 ls_suspended := (ls_suspended s)(t := None),
                 ls_returned := ls_returned s @ [(t, r)]\<rparr>))"
| "loop_step cfg cb (Enqueue now commit_fails gid pid msg) s =
     s\<lparr>ls_store := snd (queue_action now commit_fails gid pid msg (ls_store s))\<rparr>"

fun run_schedule ::
  "settings \<Rightarrow> ai_callback option \<Rightarrow> event list \<Rightarrow> loop_state \<Rightarrow> loop_state" where
  "run_schedule cfg cb [] s = s"
| "run_schedule cfg cb (e # es) s = run_schedule cfg cb es (loop_step cfg cb e s)"

text \<open>
  What holds between the events: a suspended call has a task number already given out, no
  two suspended calls are for the same game, and the keys of \<^verbatim>\<open>active_rounds\<close> are the
  games that have a suspended call.
\<close>

definition loop_inv :: "loop_state \<Rightarrow> bool" where
  "loop_inv s =
     ((\<forall>t ctx. ls_suspended s t = Some ctx \<longrightarrow> t < ls_next_task s)
      \<and> (\<forall>t1 t2 c1 c2. ls_suspended s t1 = Some c1 \<and> ls_suspended s t2 = Some c2
            \<and> ctx_game_id c1 = ctx_game_id c2 \<longrightarrow> t1 = t2)
      \<and> ls_active_rounds s = {g. \<exists>t ctx. ls_suspended s t = Some ctx \<and> ctx_game_id ctx = g})"

text \<open>The resolutions in flight for a game: the suspended calls that hold its token.\<close>

definition in_flight :: "loop_state \<Rightarrow> int \<Rightarrow> nat set" where
  "in_flight s gid = {t. \<exists>ctx. ls_suspended s t = Some ctx \<and> ctx_game_id ctx = gid}"

text \<open>An active game with Thorne's pending action and no session row yet.\<close>

definition fresh_db :: DB where
  "fresh_db = thorne_db\<lparr>sessions := []\<rparr>"

definition thorne_ctx :: round_ctx where
  "thorne_ctx =
     \<lparr>ctx_game_id = 1, ctx_game_state = thorne_gs, ctx_player_actions = [thorne_attacks],
      ctx_action_ids = [1]\<rparr>"

section \<open>Stat validation: results\<close>

lemmas stat_eval =
  validate_stat_allocation_def required_stats_def STAT_POINT_COSTS_def
  STAT_POINT_BUY_MAX_def STAT_MAX_def STAT_MIN_def

text \<open>
  C2, as stated, fails: the allocation STR 15, DEX 12, CON 14, INT 10, WIS 13, CHA 13 is
  not accepted.
\<close>

theorem C2_thorne_not_accepted:
  "fst (validate_stat_allocation thorne_stats) \<noteq> True"
  by (simp add: stat_eval thorne_stats_def)

text \<open>
  C2, amended: the allocation STR 15, DEX 12, CON 14, INT 10, WIS 13, CHA 13 costs
  9 + 4 + 7 + 2 + 5 + 5 = 32 points and is rejected for exceeding the budget of 27; the
  allocation of 18 everywhere is rejected as well, at its first entry, for exceeding
  \<open>STAT_MAX\<close>.
\<close>

theorem C2_validate_examples:
  "validate_stat_allocation thorne_stats = (False, Some (TotalExceeded 32))
   \<and> validate_stat_allocation all_18_stats = (False, Some (ExceedsMaximum ''STR'' 18))"
  by (simp add: stat_eval thorne_stats_def all_18_stats_def)

section \<open>Helper facts about the store and the round resolution\<close>

lemma sublist_join: "x \<in> set xs \<Longrightarrow> sublist x (join sep xs)"
proof (induction sep xs rule: join.induct)
  case (1 sep)
  then show ?case by simp
next
  case (2 sep y)
  then show ?case by simp
next
  case (3 sep a b ys)
  show ?case
  proof (cases "x = a")
    case True
    then show ?thesis by simp
  next
    case False
    with 3 have "sublist x (join sep (b # ys))" by simp
    then obtain ps ss where "join sep (b # ys) = ps @ x @ ss"
      by (auto simp: sublist_def)
    then have "join sep (a # b # ys) = (a @ sep @ ps) @ x @ ss" by simp
    then show ?thesis unfolding sublist_def by blast
  qed
qed

lemma find_update_first_same:
  "(\<And>x. P x \<Longrightarrow> P (g x)) \<Longrightarrow> find P (update_first P g xs) = map_option g (find P xs)"
  by (induction xs) auto

lemma find_update_first_other:
  "(\<And>x. Q (g x) = Q x) \<Longrightarrow> (\<And>x. P x \<Longrightarrow> \<not> Q x) \<Longrightarrow> find Q (update_first P g xs) = find Q xs"
  by (induction xs) auto

lemma update_first_none: "find P xs = None \<Longrightarrow> update_first P g xs = xs"
  by (induction xs) (auto split: if_splits)

lemma get_game_state_found:
  assumes "find (\<lambda>g. g_id g = gid) (games db) = Some game"
  shows "get_game_state now f gid db =
    (case find (\<lambda>s. s_game_id s = gid) (sessions db) of
       Some s \<Rightarrow> (Inr (Some (snapshot game s db gid)), db)
     | None \<Rightarrow>
        if session_create_fails f then (Inl CommitFailed, db)
        else (Inr (Some (snapshot game (new_session gid now)
                 (db\<lparr>sessions := sessions db @ [new_session gid now]\<rparr>) gid)),
              db\<lparr>sessions := sessions db @ [new_session gid now]\<rparr>))"
  using assms by (simp add: get_game_state_def Let_def split: option.splits)

lemma find_append_new:
  "find P xs = None \<Longrightarrow> P y \<Longrightarrow> find P (xs @ [y]) = Some y"
  by (induction xs) (auto split: if_splits)

lemma get_game_state_loaded:
  assumes "get_game_state now f gid db = (Inr (Some gs), db1)"
  shows "\<exists>game s. find (\<lambda>g. g_id g = gid) (games db) = Some game
           \<and> find (\<lambda>s. s_game_id s = gid) (sessions db1) = Some s
           \<and> gs = snapshot game s db1 gid
           \<and> (db1 = db \<or> (find (\<lambda>s. s_game_id s = gid) (sessions db) = None
                 \<and> s = new_session gid now
                 \<and> db1 = db\<lparr>sessions := sessions db @ [new_session gid now]\<rparr>))"
proof (cases "find (\<lambda>g. g_id g = gid) (games db)")
  case None
  with assms show ?thesis by (simp add: get_game_state_def)
next
  case (Some game)
  note g = this
  show ?thesis
  proof (cases "find (\<lambda>s. s_game_id s = gid) (sessions db)")
    case None
    with g assms have nf: "\<not> session_create_fails f"
      and d: "db1 = db\<lparr>sessions := sessions db @ [new_session gid now]\<rparr>"
      and s: "gs = snapshot game (new_session gid now) db1 gid"
      by (auto simp: get_game_state_found split: if_splits)
    have "find (\<lambda>s. s_game_id s = gid) (sessions db1) = Some (new_session gid now)"
      using None d by (simp add: find_append_new new_session_def)
    with g None d s show ?thesis by simp
  next
    case (Some s)
    with g assms show ?thesis by (auto simp: get_game_state_found)
  qed
qed

lemma process_round_reaches_commit:
  assumes "gid \<notin> ar"
    and "get_game_state now f gid db = (Inr (Some gs), db1)"
    and "gs_status gs = ''active''"
    and "gs_pending_actions gs \<noteq> [] \<or> force"
    and "should_process_round cfg now gs (gs_pending_actions gs) force"
  shows "process_round cfg now f cb gid force (db, ar) =
     (case commit_round now f gid gs
             (map snd (prepare_actions db1 (gs_players gs) (gs_pending_actions gs)))
             (generate_narrative cb gs
                (map fst (prepare_actions db1 (gs_players gs) (gs_pending_actions gs)))) db1 of
        (Inl e, db') \<Rightarrow> (Inr None, (db', ar))
      | (Inr n, db') \<Rightarrow> (Inr n, (db', ar)))"
  using assms
  by (auto simp: process_round_def process_round_try_def Let_def split: prod.splits sum.splits)

lemma mark_rows_Nil: "mark_rows gid [] rows = rows"
  by (simp add: mark_rows_def)

lemma commit_round_eq:
  assumes "find (\<lambda>s. s_game_id s = gid) (sessions db) = Some s"
  shows "commit_round now f gid gs ids narrative db =
    (if ids \<noteq> [] \<and> mark_processed_fails f then (Inl CommitFailed, db)
     else if round_update_fails f
       then (Inl CommitFailed, db\<lparr>actions := mark_rows gid ids (actions db)\<rparr>)
     else if truthy narrative \<and> log_event_fails f
       then (Inl CommitFailed,
             db\<lparr>actions := mark_rows gid ids (actions db),
                sessions := advance_rows now gid (sessions db)\<rparr>)
     else (Inr narrative,
           db\<lparr>actions := mark_rows gid ids (actions db),
              sessions := advance_rows now gid (sessions db),
              logs := logs db @
                (if truthy narrative then [narrative_row now gid gs (the narrative)] else [])\<rparr>))"
  using assms
  by (cases "ids = []")
     (auto simp: commit_round_def mark_actions_processed_def update_round_def
       log_game_event_def mark_rows_def advance_rows_def narrative_row_def)


lemma thorne_loaded:
  "get_game_state now f 1 thorne_db = (Inr (Some thorne_gs), thorne_db)"
  by (simp add: get_game_state_def thorne_db_def thorne_gs_def game1_def thorne_session_def)

lemma thorne_gs_eval:
  "gs_status thorne_gs = ''active''"
  "gs_players thorne_gs = [thorne]"
  "gs_pending_actions thorne_gs = [serialize_action attack]"
  "gs_round_number thorne_gs = 1"
  by (simp_all add: thorne_gs_def snapshot_def game1_def thorne_session_def roster_def
        pending_actions_of_def thorne_db_def attack_def thorne_def)

lemma thorne_prepared:
  "prepare_actions thorne_db [thorne] [serialize_action attack] = [(thorne_attacks, 1)]"
  by (simp add: thorne_def serialize_action_def attack_def thorne_attacks_def)

lemma thorne_should:
  "should_process_round default_settings now thorne_gs [serialize_action attack] force"
  by (simp add: should_process_round_def default_settings_def thorne_gs_eval)

section \<open>C1: the commit of a round\<close>

text \<open>
  C1, as stated, fails: when the commit of the session update raises, the action stays
  marked processed although the round number has not advanced.
\<close>

theorem C1_marked_without_advance:
  "fst (process_round default_settings 5 round_update_fault None 1 False (thorne_db, {})) = Inr None
   \<and> map a_processed (actions (fst (snd
        (process_round default_settings 5 round_update_fault None 1 False (thorne_db, {}))))) = [True]
   \<and> round_of (fst (snd
        (process_round default_settings 5 round_update_fault None 1 False (thorne_db, {})))) 1 = Some 1
   \<and> round_of thorne_db 1 = Some 1"
  by code_simp

lemma process_round_outcome:
  assumes "gid \<notin> ar"
    and "get_game_state now f gid db = (Inr (Some gs), db1)"
    and "gs_status gs = ''active''"
    and "gs_pending_actions gs \<noteq> [] \<or> force"
    and "should_process_round cfg now gs (gs_pending_actions gs) force"
    and "prepared = prepare_actions db1 (gs_players gs) (gs_pending_actions gs)"
    and "ids = map snd prepared"
    and "narrative = generate_narrative cb gs (map fst prepared)"
  shows "process_round cfg now f cb gid force (db, ar) =
    (if ids \<noteq> [] \<and> mark_processed_fails f then (Inr None, (db1, ar))
     else if round_update_fails f
       then (Inr None, (db1\<lparr>actions := mark_rows gid ids (actions db1)\<rparr>, ar))
     else if truthy narrative \<and> log_event_fails f
       then (Inr None,
             (db1\<lparr>actions := mark_rows gid ids (actions db1),
                  sessions := advance_rows now gid (sessions db1)\<rparr>, ar))
     else (Inr narrative,
           (db1\<lparr>actions := mark_rows gid ids (actions db1),
                sessions := advance_rows now gid (sessions db1),
                logs := logs db1 @
                  (if truthy narrative then [narrative_row now gid gs (the narrative)]
                   else [])\<rparr>, ar)))"
proof -
  from get_game_state_loaded [OF assms(2)]
  obtain s where s: "find (\<lambda>s. s_game_id s = gid) (sessions db1) = Some s"
    by blast
  show ?thesis
    unfolding process_round_reaches_commit [OF assms(1-5)] commit_round_eq [OF s]
      assms(6-8)
    by simp
qed

lemma round_of_sessions [simp]:
  "round_of (db\<lparr>sessions := rows\<rparr>) gid =
     map_option s_round_number (find (\<lambda>s. s_game_id s = gid) rows)"
  "round_of (db\<lparr>actions := as\<rparr>) gid = round_of db gid"
  "round_of (db\<lparr>logs := ls\<rparr>) gid = round_of db gid"
  by (simp_all add: round_of_def)

lemma turn_of_sessions [simp]:
  "turn_of (db\<lparr>sessions := rows\<rparr>) gid =
     map_option s_current_turn (find (\<lambda>s. s_game_id s = gid) rows)"
  "turn_of (db\<lparr>actions := as\<rparr>) gid = turn_of db gid"
  "turn_of (db\<lparr>logs := ls\<rparr>) gid = turn_of db gid"
  by (simp_all add: turn_of_def)

lemma find_advance_rows:
  "find (\<lambda>s. s_game_id s = gid) (advance_rows now gid rows) =
     map_option (\<lambda>s. s\<lparr>s_round_number := s_round_number s + 1, s_current_turn := None,
                        s_updated_at := now\<rparr>)
       (find (\<lambda>s. s_game_id s = gid) rows)"
  unfolding advance_rows_def by (rule find_update_first_same) simp

lemma find_advance_rows_other:
  "g \<noteq> gid \<Longrightarrow>
   find (\<lambda>s. s_game_id s = g) (advance_rows now gid rows) = find (\<lambda>s. s_game_id s = g) rows"
  unfolding advance_rows_def by (rule find_update_first_other) auto

lemma loaded_round:
  assumes "get_game_state now f gid db = (Inr (Some gs), db1)"
  shows "round_of db1 gid = Some (gs_round_number gs)"
    and "gs_pending_actions gs = pending_actions_of db gid"
    and "actions db1 = actions db" and "logs db1 = logs db" and "games db1 = games db"
    and "players db1 = players db" and "game_players db1 = game_players db"
  using get_game_state_loaded [OF assms]
  by (auto simp: round_of_def snapshot_def pending_actions_of_def)

text \<open>
  C1, amended: the commit of a round is three writes with a commit each, in the order
  marking, session update, log entry. A failure of the first leaves the store as the
  snapshot found it; a failure of the second leaves the actions marked processed and the
  round number where it was; a failure of the third leaves the actions marked and the
  round number advanced, with no log entry. In each of these cases \<^verbatim>\<open>process_round\<close>
  returns nothing, and in every case the exclusion token is released.
\<close>

theorem C1_commit_steps:
  assumes "gid \<notin> ar"
    and "get_game_state now f gid db = (Inr (Some gs), db1)"
    and "gs_status gs = ''active''"
    and "gs_pending_actions gs \<noteq> [] \<or> force"
    and "should_process_round cfg now gs (gs_pending_actions gs) force"
    and "prepared = prepare_actions db1 (gs_players gs) (gs_pending_actions gs)"
    and "ids = map snd prepared" and "ids \<noteq> []"
    and "narrative = generate_narrative cb gs (map fst prepared)" and "truthy narrative"
    and "R = process_round cfg now f cb gid force (db, ar)"
    and "db' = fst (snd R)"
  shows "(mark_processed_fails f \<longrightarrow> R = (Inr None, (db1, ar)))
    \<and> (\<not> mark_processed_fails f \<and> round_update_fails f \<longrightarrow>
         fst R = Inr None \<and> actions db' = mark_rows gid ids (actions db1)
         \<and> round_of db' gid = Some (gs_round_number gs) \<and> sessions db' = sessions db1
         \<and> logs db' = logs db1)
    \<and> (\<not> mark_processed_fails f \<and> \<not> round_update_fails f \<and> log_event_fails f \<longrightarrow>
         fst R = Inr None \<and> actions db' = mark_rows gid ids (actions db1)
         \<and> round_of db' gid = Some (gs_round_number gs + 1) \<and> turn_of db' gid = Some None
         \<and> logs db' = logs db1)
    \<and> (\<not> mark_processed_fails f \<and> \<not> round_update_fails f \<and> \<not> log_event_fails f \<longrightarrow>
         fst R = Inr narrative \<and> actions db' = mark_rows gid ids (actions db1)
         \<and> round_of db' gid = Some (gs_round_number gs + 1) \<and> turn_of db' gid = Some None
         \<and> logs db' = logs db1 @ [narrative_row now gid gs (the narrative)])
    \<and> snd (snd R) = ar"
proof -
  note out = process_round_outcome [OF assms(1-7) assms(9), folded assms(11)]
  from loaded_round(1) [OF assms(2)]
  have r: "map_option s_round_number (find (\<lambda>s. s_game_id s = gid) (sessions db1))
             = Some (gs_round_number gs)"
    by (simp add: round_of_def)
  then obtain s where s: "find (\<lambda>s. s_game_id s = gid) (sessions db1) = Some s"
    and n: "s_round_number s = gs_round_number gs"
    by auto
  show ?thesis
    using assms(8) assms(10) s n
    by (simp add: out assms(12) find_advance_rows round_of_def turn_of_def)
qed

text \<open>The second case on Thorne's game: the session commit raises.\<close>

theorem C1_commit_steps_witness:
  "fst (process_round default_settings 5 round_update_fault None 1 False (thorne_db, {}))
     = Inr None
   \<and> actions (fst (snd (process_round default_settings 5 round_update_fault None 1 False
        (thorne_db, {})))) = [attack\<lparr>a_processed := True\<rparr>]
   \<and> round_of (fst (snd (process_round default_settings 5 round_update_fault None 1 False
        (thorne_db, {})))) 1 = Some 1
   \<and> logs (fst (snd (process_round default_settings 5 round_update_fault None 1 False
        (thorne_db, {})))) = []"
proof -
  have h1: "(1::int) \<notin> {}" by simp
  have h4: "gs_pending_actions thorne_gs \<noteq> [] \<or> False" by (simp add: thorne_gs_eval)
  have h5: "should_process_round default_settings 5 thorne_gs (gs_pending_actions thorne_gs) False"
    using thorne_should by (simp add: thorne_gs_eval)
  have h8: "map snd (prepare_actions thorne_db (gs_players thorne_gs)
              (gs_pending_actions thorne_gs)) \<noteq> []"
    by (simp add: thorne_gs_eval thorne_prepared del: prepare_actions.simps)
  have h10: "truthy (generate_narrative None thorne_gs
               (map fst (prepare_actions thorne_db (gs_players thorne_gs)
                  (gs_pending_actions thorne_gs))))"
    by (simp add: thorne_gs_eval thorne_prepared generate_narrative_def truthy_def
          actions_unfold_def del: prepare_actions.simps)
  have marked: "mark_rows 1 [1] (actions thorne_db) = [attack\<lparr>a_processed := True\<rparr>]"
    by (simp add: mark_rows_def thorne_db_def attack_def)
  have l: "logs thorne_db = []" by (simp add: thorne_db_def)
  show ?thesis
    using C1_commit_steps [OF h1 thorne_loaded thorne_gs_eval(1) h4 h5 refl refl h8 refl h10
        refl refl, of round_update_fault]
    by (simp add: thorne_gs_eval thorne_prepared round_update_fault_def no_faults_def marked l
          del: prepare_actions.simps)
qed

section \<open>C3 and C4: the narrator fails or returns nothing\<close>

lemma process_round_resolved:
  assumes "gid \<notin> ar"
    and "get_game_state now f gid db = (Inr (Some gs), db1)"
    and "gs_status gs = ''active''"
    and "gs_pending_actions gs \<noteq> [] \<or> force"
    and "should_process_round cfg now gs (gs_pending_actions gs) force"
    and "\<not> mark_processed_fails f" and "\<not> round_update_fails f" and "\<not> log_event_fails f"
    and "prepared = prepare_actions db1 (gs_players gs) (gs_pending_actions gs)"
    and "narrative = generate_narrative cb gs (map fst prepared)"
  shows "process_round cfg now f cb gid force (db, ar) =
     (Inr narrative,
      (db1\<lparr>actions := mark_rows gid (map snd prepared) (actions db1),
           sessions := advance_rows now gid (sessions db1),
           logs := logs db1 @
             (if truthy narrative then [narrative_row now gid gs (the narrative)] else [])\<rparr>,
       ar))"
  using process_round_outcome [OF assms(1-5) assms(9) refl assms(10)] assms(6-8)
  by simp

lemma sublist_actions_unfold:
  "a \<in> set pas \<Longrightarrow> sublist (action_text a) (actions_unfold pas)"
proof -
  assume "a \<in> set pas"
  then have "sublist (action_text a) (join '', '' (map action_text pas))"
    by (intro sublist_join) simp
  then obtain ps ss where "join '', '' (map action_text pas) = ps @ action_text a @ ss"
    by (auto simp: sublist_def)
  then have "actions_unfold pas = (''*The actions unfold: '' @ ps) @ action_text a @ (ss @ ''*'')"
    by (simp add: actions_unfold_def)
  then show ?thesis unfolding sublist_def by blast
qed

lemma sublist_fallback_narrative:
  assumes "a \<in> set pas"
  shows "sublist (player_name a) (fallback_narrative pas)"
    and "sublist (action_text a) (fallback_narrative pas)"
proof -
  let ?r = "\<lambda>a. player_name a @ '' '' @ action_text a"
  from assms have ne: "pas \<noteq> []" by auto
  from assms have "sublist (?r a) (join '', '' (map ?r pas))"
    by (intro sublist_join) simp
  then obtain ps ss where j: "join '', '' (map ?r pas) = ps @ ?r a @ ss"
    by (auto simp: sublist_def)
  have "fallback_narrative pas =
      (''*The party acts: '' @ ps) @ player_name a
        @ ('' '' @ action_text a @ ss @ ''. The world responds...*'')"
    using ne j by (simp add: fallback_narrative_def)
  then show "sublist (player_name a) (fallback_narrative pas)"
    unfolding sublist_def by blast
  have "fallback_narrative pas =
      (''*The party acts: '' @ ps @ player_name a @ '' '') @ action_text a
        @ (ss @ ''. The world responds...*'')"
    using ne j by (simp add: fallback_narrative_def)
  then show "sublist (action_text a) (fallback_narrative pas)"
    unfolding sublist_def by blast
qed

text \<open>
  C3, as stated, fails: when the callback raises, the fallback text of
  \<^verbatim>\<open>process_round\<close> for Thorne's action does not contain his name.
\<close>

theorem C3_engine_fallback_omits_names:
  "fst (process_round default_settings 5 no_faults (Some raising) 1 False (thorne_db, {}))
     = Inr (Some ''*The actions unfold: attacks*'')
   \<and> \<not> sublist ''Thorne'' ''*The actions unfold: attacks*''"
  by code_simp

text \<open>
  C3, amended: there are two fallback texts. When the callback raises, or the engine has
  none, \<^verbatim>\<open>process_round\<close> returns the action texts joined with commas between
  \<^verbatim>\<open>*The actions unfold: \<close> and \<^verbatim>\<open>*\<close>, and every action text appears in it. When the
  callback is the Ollama client and its request does not come back with status 200, the
  client returns the pairs, each rendered as participant, space, action text, joined with
  commas between \<^verbatim>\<open>*The party acts: \<close> and \<^verbatim>\<open>. The world responds...*\<close>;
  \<^verbatim>\<open>process_round\<close> returns that text, and every participant name and every action
  text appears in it.
\<close>

theorem C3_fallback_narratives:
  assumes "gid \<notin> ar"
    and "get_game_state now f gid db = (Inr (Some gs), db1)"
    and "gs_status gs = ''active''"
    and "gs_pending_actions gs \<noteq> [] \<or> force"
    and "should_process_round cfg now gs (gs_pending_actions gs) force"
    and "\<not> mark_processed_fails f" and "\<not> round_update_fails f" and "\<not> log_event_fails f"
    and "pas = map fst (prepare_actions db1 (gs_players gs) (gs_pending_actions gs))"
    and "pas \<noteq> []"
  shows "(cb = None \<or> (\<exists>c. cb = Some c \<and> c gs pas = Raised) \<longrightarrow>
            fst (process_round cfg now f cb gid force (db, ar))
              = Inr (Some (''*The actions unfold: '' @ join '', '' (map action_text pas) @ ''*''))
            \<and> (\<forall>a\<in>set pas. sublist (action_text a)
                  (''*The actions unfold: '' @ join '', '' (map action_text pas) @ ''*'')))
       \<and> (cb = Some (generate_story http) \<and> (\<forall>t. http \<noteq> Status200 t) \<longrightarrow>
            fst (process_round cfg now f cb gid force (db, ar))
              = Inr (Some (''*The party acts: ''
                     @ join '', '' (map (\<lambda>a. player_name a @ '' '' @ action_text a) pas)
                     @ ''. The world responds...*''))
            \<and> (\<forall>a\<in>set pas.
                  sublist (player_name a) (''*The party acts: ''
                     @ join '', '' (map (\<lambda>a. player_name a @ '' '' @ action_text a) pas)
                     @ ''. The world responds...*'')
                  \<and> sublist (action_text a) (''*The party acts: ''
                     @ join '', '' (map (\<lambda>a. player_name a @ '' '' @ action_text a) pas)
                     @ ''. The world responds...*'')))"
proof -
  note res = process_round_resolved [OF assms(1-8) refl refl, of cb, folded assms(9)]
  have u: "''*The actions unfold: '' @ join '', '' (map action_text pas) @ ''*''
             = actions_unfold pas"
    by (simp add: actions_unfold_def)
  have v: "''*The party acts: ''
             @ join '', '' (map (\<lambda>a. player_name a @ '' '' @ action_text a) pas)
             @ ''. The world responds...*'' = fallback_narrative pas"
    using assms(10) by (simp add: fallback_narrative_def)
  have a: "cb = None \<or> (\<exists>c. cb = Some c \<and> c gs pas = Raised) \<Longrightarrow>
             generate_narrative cb gs pas = Some (actions_unfold pas)"
    using assms(10) by (auto simp: generate_narrative_def)
  have b: "cb = Some (generate_story http) \<Longrightarrow> (\<forall>t. http \<noteq> Status200 t) \<Longrightarrow>
             generate_narrative cb gs pas = Some (fallback_narrative pas)"
    using assms(10) by (cases http) (auto simp: generate_narrative_def generate_story_def)
  show ?thesis
    unfolding u v res
    using a b by (auto simp: sublist_actions_unfold sublist_fallback_narrative)
qed

lemma thorne_reach:
  "(1::int) \<notin> {}"
  "gs_pending_actions thorne_gs \<noteq> [] \<or> force"
  "should_process_round default_settings now thorne_gs (gs_pending_actions thorne_gs) force"
  "map fst (prepare_actions thorne_db (gs_players thorne_gs) (gs_pending_actions thorne_gs))
     = [thorne_attacks]"
  "map snd (prepare_actions thorne_db (gs_players thorne_gs) (gs_pending_actions thorne_gs))
     = [1]"
  using thorne_should
  by (simp_all add: thorne_gs_eval thorne_prepared del: prepare_actions.simps)

lemma no_faults_eval:
  "\<not> session_create_fails no_faults" "\<not> mark_processed_fails no_faults"
  "\<not> round_update_fails no_faults" "\<not> log_event_fails no_faults"
  by (simp_all add: no_faults_def)

text \<open>Both cases on Thorne's game.\<close>

theorem C3_fallback_narratives_witness:
  "fst (process_round default_settings 5 no_faults (Some raising) 1 False (thorne_db, {}))
     = Inr (Some ''*The actions unfold: attacks*'')
   \<and> sublist ''attacks'' ''*The actions unfold: attacks*''
   \<and> fst (process_round default_settings 5 no_faults (Some (generate_story ClientError)) 1
        False (thorne_db, {}))
     = Inr (Some ''*The party acts: Thorne attacks. The world responds...*'')
   \<and> sublist ''Thorne'' ''*The party acts: Thorne attacks. The world responds...*''"
proof -
  have ne: "[thorne_attacks] \<noteq> []" by simp
  note inst = C3_fallback_narratives [OF thorne_reach(1) thorne_loaded thorne_gs_eval(1)
      thorne_reach(2,3) no_faults_eval(2-4) thorne_reach(4) [symmetric] ne]
  have r: "raising thorne_gs [thorne_attacks] = Raised" by (simp add: raising_def)
  from inst [where cb = "Some raising" and http = ClientError] r
  have 1: "fst (process_round default_settings 5 no_faults (Some raising) 1 False (thorne_db, {}))
             = Inr (Some ''*The actions unfold: attacks*'')
           \<and> sublist ''attacks'' ''*The actions unfold: attacks*''"
    by (simp add: thorne_attacks_def)
  from inst [where cb = "Some (generate_story ClientError)" and http = ClientError]
  have 2: "fst (process_round default_settings 5 no_faults (Some (generate_story ClientError)) 1
              False (thorne_db, {}))
             = Inr (Some ''*The party acts: Thorne attacks. The world responds...*'')
           \<and> sublist ''Thorne'' ''*The party acts: Thorne attacks. The world responds...*''"
    by (simp add: thorne_attacks_def)
  from 1 2 show ?thesis by simp
qed

text \<open>
  C4, as stated, fails: when the callback returns \<^verbatim>\<open>None\<close>, the round is completed
  (the action is marked, the round number goes from 1 to 2) with no narrative returned
  and no log entry.
\<close>

theorem C4_empty_result_no_narrative:
  "fst (process_round default_settings 5 no_faults (Some (returning None)) 1 False
          (thorne_db, {})) = Inr None
   \<and> map a_processed (actions (fst (snd (process_round default_settings 5 no_faults
          (Some (returning None)) 1 False (thorne_db, {}))))) = [True]
   \<and> round_of (fst (snd (process_round default_settings 5 no_faults
          (Some (returning None)) 1 False (thorne_db, {})))) 1 = Some 2
   \<and> logs (fst (snd (process_round default_settings 5 no_faults
          (Some (returning None)) 1 False (thorne_db, {})))) = []"
  by code_simp

text \<open>
  C4, amended: with at least one prepared action and a callback, a callback that returns
  \<^verbatim>\<open>None\<close> or the empty string makes \<^verbatim>\<open>process_round\<close> return that result and
  append no log entry; a callback that raises makes it return and log the fallback text.
  In both cases the actions are marked processed and the round number advances by 1: the
  narrator never aborts the resolution.
\<close>

theorem C4_narrator_results:
  assumes "gid \<notin> ar"
    and "get_game_state now f gid db = (Inr (Some gs), db1)"
    and "gs_status gs = ''active''"
    and "gs_pending_actions gs \<noteq> [] \<or> force"
    and "should_process_round cfg now gs (gs_pending_actions gs) force"
    and "\<not> mark_processed_fails f" and "\<not> round_update_fails f" and "\<not> log_event_fails f"
    and "prepared = prepare_actions db1 (gs_players gs) (gs_pending_actions gs)"
    and "pas = map fst prepared" and "pas \<noteq> []"
    and "R = process_round cfg now f (Some c) gid force (db, ar)"
  shows "(\<forall>n. c gs pas = Returned n \<and> \<not> truthy n \<longrightarrow>
            fst R = Inr n \<and> logs (fst (snd R)) = logs db1)
       \<and> (c gs pas = Raised \<longrightarrow>
            fst R = Inr (Some (actions_unfold pas)) \<and> truthy (Some (actions_unfold pas))
            \<and> logs (fst (snd R)) = logs db1 @ [narrative_row now gid gs (actions_unfold pas)])
       \<and> actions (fst (snd R)) = mark_rows gid (map snd prepared) (actions db1)
       \<and> round_of (fst (snd R)) gid = Some (gs_round_number gs + 1)"
proof -
  note res = process_round_resolved [OF assms(1-9) refl, of "Some c", folded assms(10),
      folded assms(12)]
  from loaded_round(1) [OF assms(2)]
  obtain s where s: "find (\<lambda>s. s_game_id s = gid) (sessions db1) = Some s"
    and n: "s_round_number s = gs_round_number gs"
    by (auto simp: round_of_def)
  have t: "truthy (Some (actions_unfold pas))"
    by (simp add: truthy_def actions_unfold_def)
  show ?thesis
    using assms(11) s n t
    by (auto simp: res generate_narrative_def find_advance_rows round_of_def)
qed

text \<open>The callback returns the empty string on Thorne's game.\<close>

theorem C4_narrator_results_witness:
  "fst (process_round default_settings 5 no_faults (Some (returning (Some []))) 1 False
          (thorne_db, {})) = Inr (Some [])
   \<and> logs (fst (snd (process_round default_settings 5 no_faults (Some (returning (Some [])))
          1 False (thorne_db, {})))) = []
   \<and> round_of (fst (snd (process_round default_settings 5 no_faults
          (Some (returning (Some []))) 1 False (thorne_db, {})))) 1 = Some 2"
proof -
  have ne: "[thorne_attacks] \<noteq> []" by simp
  have r: "returning (Some []) thorne_gs [thorne_attacks] = Returned (Some [])"
    by (simp add: returning_def)
  have l: "logs thorne_db = []" by (simp add: thorne_db_def)
  from C4_narrator_results [OF thorne_reach(1) thorne_loaded thorne_gs_eval(1)
      thorne_reach(2,3) no_faults_eval(2-4) refl thorne_reach(4) [symmetric] ne refl,
      where c = "returning (Some [])" and now = 5 and force = False] r l
  show ?thesis
    by (simp add: truthy_def thorne_gs_eval)
qed

section \<open>C5: the round number over sequences of operations\<close>

lemma find_append_other:
  "\<not> P y \<Longrightarrow> find P (xs @ [y]) = find P xs"
  by (induction xs) auto

lemma get_game_state_db:
  assumes "get_game_state now f gid db = (r, db1)"
  shows "db1 = db \<or> (find (\<lambda>s. s_game_id s = gid) (sessions db) = None
           \<and> db1 = db\<lparr>sessions := sessions db @ [new_session gid now]\<rparr>)"
  using assms
  by (auto simp: get_game_state_def Let_def split: option.splits if_splits)

lemma round_base_append_new:
  assumes "find (\<lambda>s. s_game_id s = gid) (sessions db) = None"
  shows "round_base (db\<lparr>sessions := sessions db @ [new_session gid now]\<rparr>) g = round_base db g"
proof (cases "g = gid")
  case True
  with assms show ?thesis
    by (simp add: round_base_def round_of_def find_append_new new_session_def)
next
  case False
  then show ?thesis
    by (simp add: round_base_def round_of_def find_append_other new_session_def)
qed

lemma round_base_loaded:
  "get_game_state now f gid db = (r, db1) \<Longrightarrow> round_base db1 g = round_base db g"
  using get_game_state_db [of now f gid db r db1] round_base_append_new
  by auto

lemma round_base_fields [simp]:
  "round_base (db\<lparr>actions := as\<rparr>) g = round_base db g"
  "round_base (db\<lparr>logs := ls\<rparr>) g = round_base db g"
  by (simp_all add: round_base_def)

lemma round_base_same:
  "sessions db' = sessions db \<Longrightarrow> round_base db' g = round_base db g"
  by (simp add: round_base_def round_of_def)

lemma round_base_advance:
  assumes "sessions db' = advance_rows now gid (sessions db)"
  shows "round_base db' g =
     (if g = gid \<and> round_of db gid \<noteq> None then round_base db g + 1 else round_base db g)"
proof (cases "g = gid")
  case True
  then show ?thesis
    by (cases "find (\<lambda>s. s_game_id s = gid) (sessions db)")
       (simp_all add: round_base_def round_of_def find_advance_rows assms)
next
  case False
  then show ?thesis
    by (simp add: round_base_def round_of_def find_advance_rows_other assms)
qed

lemma process_round_not_resolved:
  assumes "get_game_state now f gid db = (Inr (Some gs), db1)"
    and "\<not> (gs_status gs = ''active'' \<and> (gs_pending_actions gs \<noteq> [] \<or> force)
            \<and> should_process_round cfg now gs (gs_pending_actions gs) force)"
    and "gid \<notin> ar"
  shows "process_round cfg now f cb gid force (db, ar) = (Inr None, (db1, ar))"
  using assms
  by (auto simp: process_round_def process_round_try_def Let_def)

lemma process_round_not_loaded:
  assumes "get_game_state now f gid db = (r, db1)" and "r = Inl e \<or> r = Inr None"
    and "gid \<notin> ar"
  shows "process_round cfg now f cb gid force (db, ar) = (Inr None, (db1, ar))"
  using assms
  by (auto simp: process_round_def process_round_try_def Let_def)

lemma process_round_held:
  "gid \<in> ar \<Longrightarrow> process_round cfg now f cb gid force (db, ar) = (Inr None, (db, ar))"
  by (simp add: process_round_def)

lemma process_round_sessions:
  "\<exists>db1. (db1 = db \<or> (find (\<lambda>s. s_game_id s = gid) (sessions db) = None
                 \<and> db1 = db\<lparr>sessions := sessions db @ [new_session gid now]\<rparr>))
     \<and> sessions (fst (snd (process_round cfg now f cb gid force (db, ar)))) =
         (if round_committed cfg now f gid force (db, ar)
          then advance_rows now gid (sessions db1) else sessions db1)
     \<and> (round_committed cfg now f gid force (db, ar) \<longrightarrow> round_of db1 gid \<noteq> None)"
proof (cases "gid \<in> ar")
  case True
  then have "process_round cfg now f cb gid force (db, ar) = (Inr None, (db, ar))"
    by (rule process_round_held)
  moreover have "\<not> round_committed cfg now f gid force (db, ar)"
    using True by (simp add: round_committed_def)
  ultimately show ?thesis by auto
next
  case held: False
  obtain r db1 where g: "get_game_state now f gid db = (r, db1)"
    by (cases "get_game_state now f gid db")
  note d = get_game_state_db [OF g]
  let ?R = "process_round cfg now f cb gid force (db, ar)"
  have "sessions (fst (snd ?R)) =
         (if round_committed cfg now f gid force (db, ar)
          then advance_rows now gid (sessions db1) else sessions db1)
     \<and> (round_committed cfg now f gid force (db, ar) \<longrightarrow> round_of db1 gid \<noteq> None)"
  proof (cases "\<exists>gs. r = Inr (Some gs)")
    case False
    then have r: "(\<exists>e. r = Inl e) \<or> r = Inr None"
      by (cases r) auto
    then obtain e where "r = Inl e \<or> r = Inr None" by blast
    from process_round_not_loaded [OF g this held]
    show ?thesis using r g held
      by (auto simp: round_committed_def)
  next
    case True
    then obtain gs where r: "r = Inr (Some gs)" by blast
    note g' = g [unfolded r]
    show ?thesis
    proof (cases "gs_status gs = ''active'' \<and> (gs_pending_actions gs \<noteq> [] \<or> force)
          \<and> should_process_round cfg now gs (gs_pending_actions gs) force")
      case False
      from process_round_not_resolved [OF g' False held]
      show ?thesis using False g' held
        by (auto simp: round_committed_def)
    next
      case True
      then have a: "gs_status gs = ''active''"
        and p: "gs_pending_actions gs \<noteq> [] \<or> force"
        and s: "should_process_round cfg now gs (gs_pending_actions gs) force"
        by auto
      note out = process_round_outcome [OF held g' a p s refl refl refl, of cb]
      have ro: "round_of db1 gid \<noteq> None"
        using loaded_round(1) [OF g'] by simp
      have c: "round_committed cfg now f gid force (db, ar) \<longleftrightarrow>
          \<not> (prepare_actions db1 (gs_players gs) (gs_pending_actions gs) \<noteq> []
               \<and> mark_processed_fails f) \<and> \<not> round_update_fails f"
        using True g' held by (simp add: round_committed_def)
      show ?thesis
        using c ro by (auto simp: out)
    qed
  qed
  with d show ?thesis by blast
qed

lemma round_of_append_new:
  assumes "find (\<lambda>s. s_game_id s = gid) (sessions db) = None"
  shows "round_of (db\<lparr>sessions := sessions db @ [new_session gid now]\<rparr>) g =
     (if g = gid then Some 1 else round_of db g)"
  using assms
  by (simp add: round_of_def find_append_new find_append_other new_session_def)

lemma round_of_advance:
  assumes "sessions db' = advance_rows now gid (sessions db)"
  shows "round_of db' g =
     (if g = gid then map_option (\<lambda>n. n + 1) (round_of db g) else round_of db g)"
proof (cases "g = gid")
  case True
  then show ?thesis
    by (cases "find (\<lambda>s. s_game_id s = gid) (sessions db)")
       (simp_all add: round_of_def find_advance_rows assms)
next
  case False
  then show ?thesis
    by (simp add: round_of_def find_advance_rows_other assms)
qed

lemma round_of_same:
  "sessions db' = sessions db \<Longrightarrow> round_of db' g = round_of db g"
  by (simp add: round_of_def)

lemma process_round_round_base:
  "round_base (fst (snd (process_round cfg now f cb gid force st))) g =
     round_base (fst st) g
       + (if gid = g \<and> round_committed cfg now f gid force st then 1 else 0)"
proof -
  obtain db ar where st: "st = (db, ar)" by (cases st)
  let ?R = "process_round cfg now f cb gid force (db, ar)"
  from process_round_sessions [of db gid now cfg f cb force ar]
  obtain db1 where d: "db1 = db \<or> (find (\<lambda>s. s_game_id s = gid) (sessions db) = None
                 \<and> db1 = db\<lparr>sessions := sessions db @ [new_session gid now]\<rparr>)"
    and s: "sessions (fst (snd ?R)) =
         (if round_committed cfg now f gid force (db, ar)
          then advance_rows now gid (sessions db1) else sessions db1)"
    and ro: "round_committed cfg now f gid force (db, ar) \<longrightarrow> round_of db1 gid \<noteq> None"
    by blast
  from d have rb: "round_base db1 g = round_base db g"
    using round_base_append_new by auto
  show ?thesis
  proof (cases "round_committed cfg now f gid force (db, ar)")
    case True
    with s have "sessions (fst (snd ?R)) = advance_rows now gid (sessions db1)" by simp
    from round_base_advance [OF this, of g] ro True rb
    show ?thesis by (auto simp: st)
  next
    case False
    with s have "sessions (fst (snd ?R)) = sessions db1" by simp
    from round_base_same [OF this, of g] False rb
    show ?thesis by (simp add: st)
  qed
qed

lemma process_round_round_kept:
  assumes "round_of (fst st) g \<noteq> None"
  shows "round_of (fst (snd (process_round cfg now f cb gid force st))) g \<noteq> None"
proof -
  obtain db ar where st: "st = (db, ar)" by (cases st)
  let ?R = "process_round cfg now f cb gid force (db, ar)"
  from process_round_sessions [of db gid now cfg f cb force ar]
  obtain db1 where d: "db1 = db \<or> (find (\<lambda>s. s_game_id s = gid) (sessions db) = None
                 \<and> db1 = db\<lparr>sessions := sessions db @ [new_session gid now]\<rparr>)"
    and s: "sessions (fst (snd ?R)) =
         (if round_committed cfg now f gid force (db, ar)
          then advance_rows now gid (sessions db1) else sessions db1)"
    by blast
  from d assms have r1: "round_of db1 g \<noteq> None"
    by (auto simp: st round_of_append_new simp del: round_of_sessions)
  show ?thesis
  proof (cases "round_committed cfg now f gid force (db, ar)")
    case True
    with s have "sessions (fst (snd ?R)) = advance_rows now gid (sessions db1)" by simp
    from round_of_advance [OF this, of g] r1
    show ?thesis by (auto simp: st)
  next
    case False
    with s have "sessions (fst (snd ?R)) = sessions db1" by simp
    from round_of_same [OF this, of g] r1
    show ?thesis by (simp add: st)
  qed
qed

lemma engine_step_round_base:
  "round_base (fst (engine_step cfg x st)) g =
     round_base (fst st) g + (if commits_round cfg g x st then 1 else 0)"
proof (cases x)
  case (ProcessRound now f cb gid force)
  then show ?thesis
    using process_round_round_base [of cfg now f cb gid force st g] by simp
next
  case (QueueAction now fails gid pid msg)
  then show ?thesis
    by (simp add: queue_action_def Let_def)
qed

lemma run_ops_round_base:
  "round_base (fst (run_ops cfg xs st)) g =
     round_base (fst st) g + int (rounds_resolved cfg g xs st)"
proof (induction xs arbitrary: st)
  case Nil
  then show ?case by simp
next
  case (Cons x xs)
  show ?case
    by (simp add: Cons.IH engine_step_round_base)
qed

lemma engine_step_round_kept:
  assumes "round_of (fst st) g \<noteq> None"
  shows "round_of (fst (engine_step cfg x st)) g \<noteq> None"
proof (cases x)
  case (ProcessRound now f cb gid force)
  then show ?thesis
    using process_round_round_kept [OF assms] by simp
next
  case (QueueAction now fails gid pid msg)
  then show ?thesis
    using assms by (simp add: queue_action_def Let_def)
qed

lemma run_ops_round_kept:
  "round_of (fst st) g \<noteq> None \<Longrightarrow> round_of (fst (run_ops cfg xs st)) g \<noteq> None"
proof (induction xs arbitrary: st)
  case Nil
  then show ?case by simp
next
  case (Cons x xs)
  from Cons.prems have "round_of (fst (engine_step cfg x st)) g \<noteq> None"
    by (rule engine_step_round_kept)
  then show ?case
    using Cons.IH by simp
qed

lemma get_game_state_creates:
  assumes "find (\<lambda>g. g_id g = gid) (games db) = Some game"
    and "find (\<lambda>s. s_game_id s = gid) (sessions db) = None"
    and "\<not> session_create_fails f"
  shows "\<exists>gs db1 row. get_game_state now f gid db = (Inr (Some gs), db1)
           \<and> sessions db1 = sessions db @ [row]
           \<and> s_game_id row = gid \<and> s_round_number row = 1 \<and> s_current_turn row = None
           \<and> gs_round_number gs = 1 \<and> round_of db1 gid = Some 1"
proof -
  let ?db1 = "db\<lparr>sessions := sessions db @ [new_session gid now]\<rparr>"
  let ?gs = "snapshot game (new_session gid now) ?db1 gid"
  have g: "get_game_state now f gid db = (Inr (Some ?gs), ?db1)"
    using assms by (simp add: get_game_state_found)
  have r: "round_of ?db1 gid = Some 1"
    using round_of_append_new [OF assms(2), of now gid] by simp
  have s: "gs_round_number ?gs = 1"
    by (simp add: snapshot_def new_session_def)
  have n: "s_game_id (new_session gid now) = gid \<and> s_round_number (new_session gid now) = 1
            \<and> s_current_turn (new_session gid now) = None"
    by (simp add: new_session_def)
  have "sessions ?db1 = sessions db @ [new_session gid now]" by simp
  with g r s n show ?thesis by blast
qed

lemma process_round_first_round:
  assumes "gid \<notin> ar"
    and "find (\<lambda>g. g_id g = gid) (games db) = Some game"
    and "find (\<lambda>s. s_game_id s = gid) (sessions db) = None"
    and "\<not> session_create_fails f"
  shows "round_of (fst (snd (process_round cfg now f cb gid force (db, ar)))) gid =
           Some (1 + (if round_committed cfg now f gid force (db, ar) then 1 else 0))"
proof -
  let ?R = "process_round cfg now f cb gid force (db, ar)"
  from get_game_state_creates [OF assms(2-4), of now]
  obtain gs db1 where g: "get_game_state now f gid db = (Inr (Some gs), db1)"
    and r1: "round_of db1 gid = Some 1"
    by blast
  have kept: "round_of (fst (snd ?R)) gid \<noteq> None"
  proof (cases "gs_status gs = ''active'' \<and> (gs_pending_actions gs \<noteq> [] \<or> force)
            \<and> should_process_round cfg now gs (gs_pending_actions gs) force")
    case False
    from process_round_not_resolved [OF g False assms(1)] r1
    show ?thesis by simp
  next
    case True
    then have a: "gs_status gs = ''active''"
      and p: "gs_pending_actions gs \<noteq> [] \<or> force"
      and s: "should_process_round cfg now gs (gs_pending_actions gs) force"
      by auto
    note out = process_round_outcome [OF assms(1) g a p s refl refl refl, of cb]
    have "sessions (fst (snd ?R)) = sessions db1
            \<or> sessions (fst (snd ?R)) = advance_rows now gid (sessions db1)"
      by (simp add: out)
    then show ?thesis
    proof
      assume "sessions (fst (snd ?R)) = sessions db1"
      from round_of_same [OF this, of gid] r1 show ?thesis by simp
    next
      assume "sessions (fst (snd ?R)) = advance_rows now gid (sessions db1)"
      from round_of_advance [OF this, of gid] r1 show ?thesis by simp
    qed
  qed
  then obtain m where m: "round_of (fst (snd ?R)) gid = Some m" by auto
  have b: "round_base db gid = 1"
    using assms(3) by (simp add: round_base_def round_of_def)
  from process_round_round_base [of cfg now f cb gid force "(db, ar)" gid] m b
  show ?thesis by (simp add: round_base_def)
qed

lemma run_ops_round_of:
  "round_of (fst st) gid = Some n \<Longrightarrow>
   round_of (fst (run_ops cfg xs st)) gid = Some (n + int (rounds_resolved cfg gid xs st))"
proof -
  assume a: "round_of (fst st) gid = Some n"
  then have "round_of (fst (run_ops cfg xs st)) gid \<noteq> None"
    by (intro run_ops_round_kept) simp
  then obtain m where m: "round_of (fst (run_ops cfg xs st)) gid = Some m" by auto
  from run_ops_round_base [of cfg xs st gid] a m
  show ?thesis by (simp add: round_base_def)
qed

lemma run_ops_round_of_none:
  "round_of (fst st) gid = None \<Longrightarrow>
   round_of (fst (run_ops cfg xs st)) gid = None
   \<or> round_of (fst (run_ops cfg xs st)) gid = Some (1 + int (rounds_resolved cfg gid xs st))"
proof -
  assume a: "round_of (fst st) gid = None"
  show ?thesis
  proof (cases "round_of (fst (run_ops cfg xs st)) gid")
    case None
    then show ?thesis by simp
  next
    case (Some m)
    from run_ops_round_base [of cfg xs st gid] a Some
    show ?thesis by (simp add: round_base_def)
  qed
qed

text \<open>
  C5: the round number of a game starts at 1: for a game without a session row,
  \<^verbatim>\<open>get_game_state\<close> creates the row with round number 1, and the first
  \<^verbatim>\<open>process_round\<close> on the game leaves it at 1, or at 2 when it commits a round. One
  engine operation adds exactly 1 to a game's round number when it is a
  \<^verbatim>\<open>process_round\<close> call on this game that commits its round, and leaves it as it is
  otherwise; so over any sequence of operations a round number \<open>n\<close> becomes \<open>n\<close> plus
  the number of committed rounds, it never decreases, and the session row, once there,
  stays.
\<close>

theorem C5_round_number:
  "(find (\<lambda>g. g_id g = gid) (games db) = Some game
      \<and> find (\<lambda>s. s_game_id s = gid) (sessions db) = None \<and> \<not> session_create_fails f
      \<longrightarrow> (\<exists>gs db1 row. get_game_state now f gid db = (Inr (Some gs), db1)
             \<and> sessions db1 = sessions db @ [row]
             \<and> s_game_id row = gid \<and> s_round_number row = 1
             \<and> gs_round_number gs = 1 \<and> round_of db1 gid = Some 1)
          \<and> (gid \<notin> ar \<longrightarrow>
               round_of (fst (snd (process_round cfg now f cb gid force (db, ar)))) gid =
                 Some (1 + (if round_committed cfg now f gid force (db, ar) then 1 else 0))))
   \<and> (find (\<lambda>s. s_game_id s = gid) (sessions db) = None
      \<and> get_game_state now f gid db = (Inr (Some gs), db1)
      \<longrightarrow> round_of db1 gid = Some 1 \<and> gs_round_number gs = 1)
   \<and> round_base (fst (engine_step cfg x st)) gid =
       round_base (fst st) gid + (if commits_round cfg gid x st then 1 else 0)
   \<and> round_base (fst (run_ops cfg xs st)) gid =
       round_base (fst st) gid + int (rounds_resolved cfg gid xs st)
   \<and> round_base (fst st) gid \<le> round_base (fst (run_ops cfg xs st)) gid
   \<and> round_base (fst st) gid \<le> round_base (fst (process_all_active_games cfg now fs cb st)) gid
   \<and> (round_of (fst st) gid \<noteq> None \<longrightarrow> round_of (fst (run_ops cfg xs st)) gid \<noteq> None)
   \<and> (\<forall>n. round_of (fst st) gid = Some n \<longrightarrow>
         round_of (fst (run_ops cfg xs st)) gid
           = Some (n + int (rounds_resolved cfg gid xs st)))
   \<and> (round_of (fst st) gid = None \<longrightarrow>
         round_of (fst (run_ops cfg xs st)) gid = None
         \<or> round_of (fst (run_ops cfg xs st)) gid
              = Some (1 + int (rounds_resolved cfg gid xs st)))"
proof -
  have create: "find (\<lambda>g. g_id g = gid) (games db) = Some game
      \<and> find (\<lambda>s. s_game_id s = gid) (sessions db) = None \<and> \<not> session_create_fails f
      \<longrightarrow> (\<exists>gs db1 row. get_game_state now f gid db = (Inr (Some gs), db1)
             \<and> sessions db1 = sessions db @ [row]
             \<and> s_game_id row = gid \<and> s_round_number row = 1
             \<and> gs_round_number gs = 1 \<and> round_of db1 gid = Some 1)
          \<and> (gid \<notin> ar \<longrightarrow>
               round_of (fst (snd (process_round cfg now f cb gid force (db, ar)))) gid =
                 Some (1 + (if round_committed cfg now f gid force (db, ar) then 1 else 0)))"
  proof (intro impI conjI)
    assume a: "find (\<lambda>g. g_id g = gid) (games db) = Some game
      \<and> find (\<lambda>s. s_game_id s = gid) (sessions db) = None \<and> \<not> session_create_fails f"
    then have g: "find (\<lambda>g. g_id g = gid) (games db) = Some game"
      and n: "find (\<lambda>s. s_game_id s = gid) (sessions db) = None"
      and c: "\<not> session_create_fails f"
      by auto
    from get_game_state_creates [OF g n c, of now]
    show "\<exists>gs db1 row. get_game_state now f gid db = (Inr (Some gs), db1)
             \<and> sessions db1 = sessions db @ [row]
             \<and> s_game_id row = gid \<and> s_round_number row = 1
             \<and> gs_round_number gs = 1 \<and> round_of db1 gid = Some 1"
      by blast
    assume "gid \<notin> ar"
    from process_round_first_round [OF this g n c]
    show "round_of (fst (snd (process_round cfg now f cb gid force (db, ar)))) gid =
                 Some (1 + (if round_committed cfg now f gid force (db, ar) then 1 else 0))" .
  qed
  have start: "find (\<lambda>s. s_game_id s = gid) (sessions db) = None
      \<and> get_game_state now f gid db = (Inr (Some gs), db1)
      \<longrightarrow> round_of db1 gid = Some 1 \<and> gs_round_number gs = 1"
  proof
    assume a: "find (\<lambda>s. s_game_id s = gid) (sessions db) = None
      \<and> get_game_state now f gid db = (Inr (Some gs), db1)"
    then have g: "get_game_state now f gid db = (Inr (Some gs), db1)" by simp
    from get_game_state_loaded [OF g] a
    have "round_of db1 gid = Some 1"
      by (auto simp: round_of_def new_session_def)
    with loaded_round(1) [OF g] show "round_of db1 gid = Some 1 \<and> gs_round_number gs = 1"
      by simp
  qed
  have mono: "round_base (fst st) gid \<le> round_base (fst (run_ops cfg ys st)) gid" for ys
    by (simp add: run_ops_round_base)
  have kept: "round_of (fst st) gid \<noteq> None \<longrightarrow> round_of (fst (run_ops cfg xs st)) gid \<noteq> None"
    using run_ops_round_kept [of st gid cfg xs] by blast
  have some: "\<forall>n. round_of (fst st) gid = Some n \<longrightarrow>
         round_of (fst (run_ops cfg xs st)) gid
           = Some (n + int (rounds_resolved cfg gid xs st))"
    using run_ops_round_of [of st gid _ cfg xs] by blast
  have none: "round_of (fst st) gid = None \<longrightarrow>
         round_of (fst (run_ops cfg xs st)) gid = None
         \<or> round_of (fst (run_ops cfg xs st)) gid
              = Some (1 + int (rounds_resolved cfg gid xs st))"
    using run_ops_round_of_none [of st gid cfg xs] by blast
  have step: "round_base (fst (engine_step cfg x st)) gid =
       round_base (fst st) gid + (if commits_round cfg gid x st then 1 else 0)"
    by (rule engine_step_round_base)
  have run: "round_base (fst (run_ops cfg xs st)) gid =
       round_base (fst st) gid + int (rounds_resolved cfg gid xs st)"
    by (rule run_ops_round_base)
  have sweep: "round_base (fst st) gid
                 \<le> round_base (fst (process_all_active_games cfg now fs cb st)) gid"
    unfolding process_all_active_games_def by (rule mono)
  from create start step run mono [of xs] sweep kept some none
  show ?thesis by (intro conjI)
qed

text \<open>
  The store creates the row of the waiting game with round number 1; the first round
  resolved on an active game without a row takes it to 2; two rounds resolved on Thorne's
  game, with an action queued in between, take it from round 1 to round 3.
\<close>

theorem C5_round_number_witness:
  "round_of (snd (get_game_state 5 no_faults 1 waiting_db)) 1 = Some 1
   \<and> round_of waiting_db 1 = None
   \<and> round_of (fst (snd (process_round default_settings 5 no_faults None 1 False
        (fresh_db, {})))) 1 = Some 2
   \<and> round_of (fst (run_ops default_settings
        [ProcessRound 5 no_faults None 1 False, QueueAction 6 False 1 1 ''parries'',
         ProcessRound 7 no_faults None 1 False] (thorne_db, {}))) 1 = Some 3"
proof -
  let ?ops = "[ProcessRound 5 no_faults None 1 False, QueueAction 6 False 1 1 ''parries'',
         ProcessRound 7 no_faults None 1 False]"
  have w1: "find (\<lambda>g. g_id g = 1) (games waiting_db) = Some (game1 WAITING)"
    by (simp add: waiting_db_def game1_def)
  have w2: "find (\<lambda>s. s_game_id s = 1) (sessions waiting_db) = None"
    by (simp add: waiting_db_def)
  have f1: "find (\<lambda>g. g_id g = 1) (games fresh_db) = Some (game1 ACTIVE)"
    by (simp add: fresh_db_def thorne_db_def game1_def)
  have f2: "find (\<lambda>s. s_game_id s = 1) (sessions fresh_db) = None"
    by (simp add: fresh_db_def)
  have c: "round_committed default_settings 5 no_faults 1 False (fresh_db, {})"
    by code_simp
  have n: "rounds_resolved default_settings 1 ?ops (thorne_db, {}) = 2"
    by code_simp
  have k: "round_of thorne_db 1 = Some 1"
    by code_simp
  have wn: "round_of waiting_db 1 = None"
    by code_simp
  note inst = C5_round_number [where gid = 1 and f = no_faults and now = 5 and ar = "{}"
      and cfg = default_settings and cb = None and force = False
      and x = "ProcessRound 5 no_faults None 1 False" and st = "(thorne_db, {})"
      and xs = ?ops and fs = "\<lambda>g. no_faults"
      and gs = thorne_gs and ?db1.0 = thorne_db]
  from inst [where db = waiting_db and game = "game1 WAITING", THEN conjunct1] w1 w2
    no_faults_eval(1)
  obtain gs db1 where "get_game_state 5 no_faults 1 waiting_db = (Inr (Some gs), db1)"
    and "round_of db1 1 = Some 1"
    by blast
  then have a: "round_of (snd (get_game_state 5 no_faults 1 waiting_db)) 1 = Some 1"
    by simp
  from inst [where db = fresh_db and game = "game1 ACTIVE", THEN conjunct1] f1 f2
    no_faults_eval(1)
  have "round_of (fst (snd (process_round default_settings 5 no_faults None 1 False
        (fresh_db, {})))) 1 =
          Some (1 + (if round_committed default_settings 5 no_faults 1 False (fresh_db, {})
                     then 1 else 0))"
    by blast
  with c have b: "round_of (fst (snd (process_round default_settings 5 no_faults None 1 False
        (fresh_db, {})))) 1 = Some 2"
    by simp
  from inst [where db = thorne_db and game = "game1 ACTIVE"] k
  have "round_of (fst (run_ops default_settings ?ops (thorne_db, {}))) 1
          = Some (1 + int (rounds_resolved default_settings 1 ?ops (thorne_db, {})))"
    by simp
  then have d: "round_of (fst (run_ops default_settings ?ops (thorne_db, {}))) 1 = Some 3"
    unfolding n by simp
  from a wn b d show ?thesis by simp
qed

section \<open>C7: the scheduler\<close>

lemma min_by_timestamp_Min:
  "pa_timestamp (min_by_timestamp best xs) = Min (set (map pa_timestamp (best # xs)))"
proof (induction xs arbitrary: best)
  case Nil
  then show ?case by simp
next
  case (Cons x xs)
  have "Min (set (map pa_timestamp (best # x # xs)))
          = min (pa_timestamp best) (Min (set (map pa_timestamp (x # xs))))"
    by simp
  also have "\<dots> = Min (set (map pa_timestamp
                 ((if pa_timestamp x < pa_timestamp best then x else best) # xs)))"
  proof (cases xs)
    case Nil
    then show ?thesis by (simp add: min_def)
  next
    case (Cons y ys)
    then show ?thesis by (auto simp: min_def)
  qed
  finally show ?case
    by (simp add: Cons.IH del: set_simps list.map)
qed

lemma should_process_round_eq:
  "should_process_round cfg now gs pending force =
     (force \<or> (pending \<noteq> []
        \<and> MIN_PLAYERS_FOR_ROUND cfg \<le> int (length pending)
        \<and> (length (gs_players gs) \<le> card (pa_player_id ` set pending)
             \<or> ROUND_TIMEOUT_SECONDS cfg * 1000000 \<le> oldest_age now pending)))"
proof (cases pending)
  case Nil
  then show ?thesis by (simp add: should_process_round_def)
next
  case (Cons first others)
  have c: "length (remdups (map pa_player_id pending)) = card (pa_player_id ` set pending)"
    by (simp add: length_remdups_card_conv)
  have m: "pa_timestamp (min_by_timestamp first others) = Min (set (map pa_timestamp pending))"
    unfolding Cons by (rule min_by_timestamp_Min)
  show ?thesis
    unfolding should_process_round_def Let_def c oldest_age_def m [symmetric]
    by (simp add: Cons)
qed

lemma quorum_count:
  assumes "distinct (map p_id roster_players)"
    and "pa_player_id ` set pending \<subseteq> p_id ` set roster_players"
  shows "(length roster_players \<le> card (pa_player_id ` set pending))
           = quorum roster_players pending"
proof -
  let ?A = "pa_player_id ` set pending" and ?B = "p_id ` set roster_players"
  have len: "length roster_players = card ?B"
    using assms(1) by (metis distinct_card length_map set_map)
  have q: "quorum roster_players pending \<longleftrightarrow> ?B \<subseteq> ?A"
    unfolding quorum_def by (auto simp: subset_iff image_iff) metis+
  have "card ?B \<le> card ?A \<longleftrightarrow> ?B \<subseteq> ?A"
  proof
    assume "card ?B \<le> card ?A"
    with assms(2) have "?A = ?B" by (intro card_seteq) auto
    then show "?B \<subseteq> ?A" by simp
  next
    assume "?B \<subseteq> ?A"
    then show "card ?B \<le> card ?A" by (intro card_mono) auto
  qed
  with len q show ?thesis by simp
qed

text \<open>
  C7, as stated, fails in two places. With Thorne and Mira in the roster and only Thorne's
  action pending, the code resolves when the age of that action is exactly the timeout,
  which does not exceed it. And with a second action by a player outside the roster, the
  code resolves at once, although Mira has no pending action.
\<close>

theorem C7_scheduler_differs:
  "should_process_round default_settings 300000000 pair_gs [serialize_action attack] False
   \<and> \<not> should_resolve_spec default_settings 300000000 (gs_players pair_gs)
         [serialize_action attack] False
   \<and> should_process_round default_settings 5 pair_gs
         [serialize_action attack, outsider_action] False
   \<and> \<not> should_resolve_spec default_settings 5 (gs_players pair_gs)
         [serialize_action attack, outsider_action] False"
  by (simp add: should_process_round_def should_resolve_spec_def quorum_def oldest_age_def
        default_settings_def pair_gs_def serialize_action_def attack_def outsider_action_def
        thorne_def mira_def)

text \<open>
  C7, amended: the scheduler resolves exactly when force is set, or there are pending
  actions, their number reaches \<open>MIN_PLAYERS_FOR_ROUND\<close>, and either the number of
  distinct player ids among them reaches the size of the roster or the age of the oldest
  one is at least \<open>ROUND_TIMEOUT_SECONDS\<close>. When the roster's ids are distinct and all
  pending actions come from the roster, the count condition is the quorum. For a roster
  of 2 with 1 pending action and a minimum of 1, the result without force is whether the
  age of that action has reached the timeout.
\<close>

theorem C7_scheduler:
  "should_process_round cfg now gs pending force =
     (force \<or> (pending \<noteq> []
        \<and> MIN_PLAYERS_FOR_ROUND cfg \<le> int (length pending)
        \<and> (length (gs_players gs) \<le> card (pa_player_id ` set pending)
             \<or> ROUND_TIMEOUT_SECONDS cfg * 1000000 \<le> oldest_age now pending)))
   \<and> (distinct (map p_id (gs_players gs))
        \<and> pa_player_id ` set pending \<subseteq> p_id ` set (gs_players gs)
      \<longrightarrow> (length (gs_players gs) \<le> card (pa_player_id ` set pending))
            = quorum (gs_players gs) pending)
   \<and> (length (gs_players gs) = 2 \<and> length pending = 1 \<and> MIN_PLAYERS_FOR_ROUND cfg = 1
      \<longrightarrow> should_process_round cfg now gs pending False
            = (ROUND_TIMEOUT_SECONDS cfg * 1000000 \<le> oldest_age now pending))"
proof -
  have ex: "length (gs_players gs) = 2 \<and> length pending = 1 \<and> MIN_PLAYERS_FOR_ROUND cfg = 1
      \<longrightarrow> should_process_round cfg now gs pending False
            = (ROUND_TIMEOUT_SECONDS cfg * 1000000 \<le> oldest_age now pending)"
  proof
    assume a: "length (gs_players gs) = 2 \<and> length pending = 1 \<and> MIN_PLAYERS_FOR_ROUND cfg = 1"
    then obtain x where p: "pending = [x]"
      by (cases pending) auto
    show "should_process_round cfg now gs pending False
            = (ROUND_TIMEOUT_SECONDS cfg * 1000000 \<le> oldest_age now pending)"
      using a by (simp add: should_process_round_eq p)
  qed
  show ?thesis
    using ex quorum_count [of "gs_players gs" pending]
    by (simp add: should_process_round_eq [symmetric])
qed

text \<open>Thorne's action alone, one microsecond before the timeout and at the timeout.\<close>

theorem C7_scheduler_witness:
  "\<not> should_process_round default_settings 299999999 pair_gs [serialize_action attack] False
   \<and> should_process_round default_settings 300000000 pair_gs [serialize_action attack] False
   \<and> \<not> quorum (gs_players pair_gs) [serialize_action attack]"
proof -
  have p: "gs_players pair_gs = [thorne, mira]" by (simp add: pair_gs_def)
  have h: "distinct (map p_id (gs_players pair_gs))
        \<and> pa_player_id ` set [serialize_action attack] \<subseteq> p_id ` set (gs_players pair_gs)"
    by (simp add: p thorne_def mira_def serialize_action_def attack_def)
  have e: "length (gs_players pair_gs) = 2 \<and> length [serialize_action attack] = 1
        \<and> MIN_PLAYERS_FOR_ROUND default_settings = 1"
    by (simp add: p default_settings_def)
  have age: "oldest_age now [serialize_action attack] = now" for now
    by (simp add: oldest_age_def serialize_action_def attack_def)
  from C7_scheduler [of default_settings 299999999 pair_gs "[serialize_action attack]" False]
    C7_scheduler [of default_settings 300000000 pair_gs "[serialize_action attack]" False]
    h e
  show ?thesis
    by (simp add: age default_settings_def p)
qed

section \<open>C6: games that are not active\<close>

lemma status_value_active [simp]:
  "(status_value s = ''active'') = (s = ACTIVE)"
  by (cases s) simp_all

lemma process_round_inactive:
  assumes "find (\<lambda>g. g_id g = gid) (games db) = Some game"
    and "g_status game \<noteq> ACTIVE"
  shows "process_round cfg now f cb gid force (db, ar) =
     (Inr None,
      (if gid \<in> ar \<or> find (\<lambda>s. s_game_id s = gid) (sessions db) \<noteq> None
          \<or> session_create_fails f
       then db else db\<lparr>sessions := sessions db @ [new_session gid now]\<rparr>,
       ar))"
proof (cases "gid \<in> ar")
  case True
  then show ?thesis by (simp add: process_round_held)
next
  case False
  show ?thesis
  proof (cases "find (\<lambda>s. s_game_id s = gid) (sessions db)")
    case (Some s)
    with assms False show ?thesis
      by (simp add: process_round_def process_round_try_def get_game_state_found snapshot_def)
  next
    case None
    with assms False show ?thesis
      by (simp add: process_round_def process_round_try_def get_game_state_found snapshot_def)
  qed
qed

text \<open>
  C6, as stated, fails: a WAITING game without a session row has one after the call.
\<close>

theorem C6_waiting_game_gets_session:
  "sessions (fst (snd (process_round default_settings 5 no_faults None 1 True (waiting_db, {}))))
     = [new_session 1 5]
   \<and> sessions waiting_db = []
   \<and> map g_status (games waiting_db) = [WAITING]"
  by code_simp

text \<open>
  C6, amended: on a game whose status is PAUSED, WAITING or ENDED, \<^verbatim>\<open>process_round\<close>
  returns nothing, whatever is pending, whatever the time and whether or not force is
  set; it leaves the exclusion map, the games, players, actions and logs as they were and
  never advances the round number. The session table is unchanged too when the game has
  a session row; a game without one gets its row, with round number 1, as a side effect of
  loading the snapshot (unless the token is held or that commit fails).
\<close>

theorem C6_inactive_game:
  assumes "find (\<lambda>g. g_id g = gid) (games db) = Some game"
    and "g_status game \<in> {PAUSED, WAITING, ENDED}"
    and "R = process_round cfg now f cb gid force (db, ar)"
  shows "fst R = Inr None \<and> snd (snd R) = ar
    \<and> games (fst (snd R)) = games db \<and> players (fst (snd R)) = players db
    \<and> game_players (fst (snd R)) = game_players db
    \<and> actions (fst (snd R)) = actions db \<and> logs (fst (snd R)) = logs db
    \<and> sessions (fst (snd R)) =
        (if gid \<in> ar \<or> find (\<lambda>s. s_game_id s = gid) (sessions db) \<noteq> None
            \<or> session_create_fails f
         then sessions db else sessions db @ [new_session gid now])
    \<and> (find (\<lambda>s. s_game_id s = gid) (sessions db) \<noteq> None \<longrightarrow> fst (snd R) = db)
    \<and> round_base (fst (snd R)) gid = round_base db gid"
proof -
  from assms(2) have na: "g_status game \<noteq> ACTIVE" by auto
  note r = process_round_inactive [OF assms(1) na, of cfg now f cb force ar, folded assms(3)]
  have "round_base (fst (snd R)) gid = round_base db gid"
    using round_base_append_new [of gid db now gid] by (auto simp: r)
  then show ?thesis by (simp add: r)
qed

text \<open>The waiting game, with Thorne's action pending and force set.\<close>

theorem C6_inactive_game_witness:
  "fst (process_round default_settings 5 no_faults None 1 True (waiting_db, {})) = Inr None
   \<and> actions (fst (snd (process_round default_settings 5 no_faults None 1 True
        (waiting_db, {})))) = actions waiting_db
   \<and> round_base (fst (snd (process_round default_settings 5 no_faults None 1 True
        (waiting_db, {})))) 1 = 1"
proof -
  have h1: "find (\<lambda>g. g_id g = 1) (games waiting_db) = Some (game1 WAITING)"
    by (simp add: waiting_db_def game1_def)
  have h2: "g_status (game1 WAITING) \<in> {PAUSED, WAITING, ENDED}"
    by (simp add: game1_def)
  have b: "round_base waiting_db 1 = 1" by code_simp
  from C6_inactive_game [OF h1 h2 refl, of default_settings 5 no_faults None True "{}"] b
  show ?thesis by simp
qed

section \<open>C9: what leaves \<^verbatim>\<open>process_round\<close>\<close>

text \<open>
  C9, as stated, fails: the session commit raises inside the \<^verbatim>\<open>try\<close> block, and the
  call returns nothing instead of raising.
\<close>

theorem C9_failure_not_propagated:
  "fst (process_round_try default_settings 5 round_update_fault None 1 False thorne_db)
     = Inl CommitFailed
   \<and> fst (process_round default_settings 5 round_update_fault None 1 False (thorne_db, {}))
     = Inr None"
  by code_simp

lemma process_round_try_outcome:
  assumes "get_game_state now f gid db = (Inr (Some gs), db1)"
    and "gs_status gs = ''active''"
    and "gs_pending_actions gs \<noteq> [] \<or> force"
    and "should_process_round cfg now gs (gs_pending_actions gs) force"
    and "prepared = prepare_actions db1 (gs_players gs) (gs_pending_actions gs)"
    and "ids = map snd prepared"
    and "narrative = generate_narrative cb gs (map fst prepared)"
  shows "process_round_try cfg now f cb gid force db =
    (if ids \<noteq> [] \<and> mark_processed_fails f then (Inl CommitFailed, db1)
     else if round_update_fails f
       then (Inl CommitFailed, db1\<lparr>actions := mark_rows gid ids (actions db1)\<rparr>)
     else if truthy narrative \<and> log_event_fails f
       then (Inl CommitFailed,
             db1\<lparr>actions := mark_rows gid ids (actions db1),
                 sessions := advance_rows now gid (sessions db1)\<rparr>)
     else (Inr narrative,
           db1\<lparr>actions := mark_rows gid ids (actions db1),
               sessions := advance_rows now gid (sessions db1),
               logs := logs db1 @
                 (if truthy narrative then [narrative_row now gid gs (the narrative)]
                  else [])\<rparr>))"
proof -
  from get_game_state_loaded [OF assms(1)]
  obtain s where s: "find (\<lambda>s. s_game_id s = gid) (sessions db1) = Some s"
    by blast
  have "process_round_try cfg now f cb gid force db =
          commit_round now f gid gs ids narrative db1"
    using assms(1-4) by (auto simp: process_round_try_def Let_def assms(5-7))
  then show ?thesis
    by (simp only: commit_round_eq [OF s])
qed

lemma process_round_try_create_fails:
  assumes "find (\<lambda>g. g_id g = gid) (games db) = Some game"
    and "find (\<lambda>s. s_game_id s = gid) (sessions db) = None"
    and "session_create_fails f"
  shows "process_round_try cfg now f cb gid force db = (Inl CommitFailed, db)"
  using assms by (simp add: process_round_try_def get_game_state_found)

lemma process_round_unknown_game:
  assumes "find (\<lambda>g. g_id g = gid) (games db) = None" and "gid \<notin> ar"
  shows "process_round cfg now f cb gid force (db, ar) = (Inr None, (db, ar))"
  using assms by (simp add: process_round_def process_round_try_def get_game_state_def)

lemma process_round_of_try:
  assumes "gid \<notin> ar"
  shows "process_round cfg now f cb gid force (db, ar) =
     (case process_round_try cfg now f cb gid force db of
        (Inl e, db') \<Rightarrow> (Inr None, (db', ar))
      | (Inr n, db') \<Rightarrow> (Inr n, (db', ar)))"
  using assms by (auto simp: process_round_def split: prod.splits sum.splits)

text \<open>
  C9, amended: no failure is surfaced as an error from \<^verbatim>\<open>process_round\<close>; every call
  returns a value. A busy token, an unknown or inactive game, nothing pending and a
  declining scheduler end the call with the return value \<^verbatim>\<open>None\<close>. A raising narrator
  is replaced by the fallback text. A commit that raises (the creation of the session
  row, the marking, the session update, the log entry) raises out of the \<^verbatim>\<open>try\<close>
  block, is caught there, and the call returns \<^verbatim>\<open>None\<close>, with the token released and
  the store holding the writes committed before the failure.
\<close>

theorem C9_no_error_leaves:
  assumes "R = process_round cfg now f cb gid force (db, ar)"
    and "T = process_round_try cfg now f cb gid force db"
    and "prepared = prepare_actions db1 (gs_players gs) (gs_pending_actions gs)"
    and "pas = map fst prepared" and "ids = map snd prepared"
    and "narrative = generate_narrative cb gs pas"
    and "go = (gs_status gs = ''active'' \<and> (gs_pending_actions gs \<noteq> [] \<or> force)
                \<and> should_process_round cfg now gs (gs_pending_actions gs) force)"
  shows "(\<exists>n. fst R = Inr n)
    \<and> (gid \<in> ar \<longrightarrow> R = (Inr None, (db, ar)))
    \<and> (gid \<notin> ar \<and> find (\<lambda>g. g_id g = gid) (games db) = None
         \<longrightarrow> R = (Inr None, (db, ar)))
    \<and> (gid \<notin> ar \<and> find (\<lambda>g. g_id g = gid) (games db) = Some game
          \<and> find (\<lambda>s. s_game_id s = gid) (sessions db) = None \<and> session_create_fails f
         \<longrightarrow> T = (Inl CommitFailed, db) \<and> R = (Inr None, (db, ar)))
    \<and> (gid \<notin> ar \<and> get_game_state now f gid db = (Inr (Some gs), db1) \<longrightarrow>
         (\<not> go \<longrightarrow> R = (Inr None, (db1, ar)))
       \<and> (go \<and> ids \<noteq> [] \<and> mark_processed_fails f
            \<longrightarrow> T = (Inl CommitFailed, db1) \<and> R = (Inr None, (db1, ar)))
       \<and> (go \<and> \<not> (ids \<noteq> [] \<and> mark_processed_fails f) \<and> round_update_fails f
            \<longrightarrow> T = (Inl CommitFailed, db1\<lparr>actions := mark_rows gid ids (actions db1)\<rparr>)
                \<and> R = (Inr None, (db1\<lparr>actions := mark_rows gid ids (actions db1)\<rparr>, ar)))
       \<and> (go \<and> \<not> (ids \<noteq> [] \<and> mark_processed_fails f) \<and> \<not> round_update_fails f
              \<and> truthy narrative \<and> log_event_fails f
            \<longrightarrow> T = (Inl CommitFailed,
                      db1\<lparr>actions := mark_rows gid ids (actions db1),
                          sessions := advance_rows now gid (sessions db1)\<rparr>)
                \<and> R = (Inr None,
                       (db1\<lparr>actions := mark_rows gid ids (actions db1),
                            sessions := advance_rows now gid (sessions db1)\<rparr>, ar)))
       \<and> (go \<and> \<not> (ids \<noteq> [] \<and> mark_processed_fails f) \<and> \<not> round_update_fails f
              \<and> \<not> (truthy narrative \<and> log_event_fails f)
            \<longrightarrow> fst T = Inr narrative \<and> fst R = Inr narrative)
       \<and> (pas \<noteq> [] \<and> (\<exists>c. cb = Some c \<and> c gs pas = Raised)
            \<longrightarrow> narrative = Some (actions_unfold pas)))"
proof -
  have A: "\<exists>n. fst R = Inr n"
  proof -
    obtain r d where t: "process_round_try cfg now f cb gid force db = (r, d)"
      by (metis surj_pair)
    show ?thesis
      unfolding assms(1) by (cases r) (auto simp: t process_round_def)
  qed
  have B: "gid \<in> ar \<longrightarrow> R = (Inr None, (db, ar))"
    unfolding assms(1) by (simp add: process_round_held)
  have C: "gid \<notin> ar \<and> find (\<lambda>g. g_id g = gid) (games db) = None
         \<longrightarrow> R = (Inr None, (db, ar))"
    unfolding assms(1) by (simp add: process_round_unknown_game)
  have D: "gid \<notin> ar \<and> find (\<lambda>g. g_id g = gid) (games db) = Some game
          \<and> find (\<lambda>s. s_game_id s = gid) (sessions db) = None \<and> session_create_fails f
         \<longrightarrow> T = (Inl CommitFailed, db) \<and> R = (Inr None, (db, ar))"
    unfolding assms(1,2)
    by (auto simp: process_round_of_try process_round_try_create_fails)
  have E: "gid \<notin> ar \<and> get_game_state now f gid db = (Inr (Some gs), db1) \<longrightarrow>
         (\<not> go \<longrightarrow> R = (Inr None, (db1, ar)))
       \<and> (go \<and> ids \<noteq> [] \<and> mark_processed_fails f
            \<longrightarrow> T = (Inl CommitFailed, db1) \<and> R = (Inr None, (db1, ar)))
       \<and> (go \<and> \<not> (ids \<noteq> [] \<and> mark_processed_fails f) \<and> round_update_fails f
            \<longrightarrow> T = (Inl CommitFailed, db1\<lparr>actions := mark_rows gid ids (actions db1)\<rparr>)
                \<and> R = (Inr None, (db1\<lparr>actions := mark_rows gid ids (actions db1)\<rparr>, ar)))
       \<and> (go \<and> \<not> (ids \<noteq> [] \<and> mark_processed_fails f) \<and> \<not> round_update_fails f
              \<and> truthy narrative \<and> log_event_fails f
            \<longrightarrow> T = (Inl CommitFailed,
                      db1\<lparr>actions := mark_rows gid ids (actions db1),
                          sessions := advance_rows now gid (sessions db1)\<rparr>)
                \<and> R = (Inr None,
                       (db1\<lparr>actions := mark_rows gid ids (actions db1),
                            sessions := advance_rows now gid (sessions db1)\<rparr>, ar)))
       \<and> (go \<and> \<not> (ids \<noteq> [] \<and> mark_processed_fails f) \<and> \<not> round_update_fails f
              \<and> \<not> (truthy narrative \<and> log_event_fails f)
            \<longrightarrow> fst T = Inr narrative \<and> fst R = Inr narrative)
       \<and> (pas \<noteq> [] \<and> (\<exists>c. cb = Some c \<and> c gs pas = Raised)
            \<longrightarrow> narrative = Some (actions_unfold pas))"
  proof (intro impI)
    assume h: "gid \<notin> ar \<and> get_game_state now f gid db = (Inr (Some gs), db1)"
    then have held: "gid \<notin> ar" and g: "get_game_state now f gid db = (Inr (Some gs), db1)"
      by auto
    have decline: "\<not> go \<longrightarrow> R = (Inr None, (db1, ar))"
    proof
      assume "\<not> go"
      then have "\<not> (gs_status gs = ''active'' \<and> (gs_pending_actions gs \<noteq> [] \<or> force)
            \<and> should_process_round cfg now gs (gs_pending_actions gs) force)"
        by (simp add: assms(7))
      from process_round_not_resolved [OF g this held]
      show "R = (Inr None, (db1, ar))" by (simp add: assms(1))
    qed
    have narr: "pas \<noteq> [] \<and> (\<exists>c. cb = Some c \<and> c gs pas = Raised)
            \<longrightarrow> narrative = Some (actions_unfold pas)"
      by (auto simp: assms(6) generate_narrative_def)
    have resolved: "go \<Longrightarrow>
         T = (if ids \<noteq> [] \<and> mark_processed_fails f then (Inl CommitFailed, db1)
             else if round_update_fails f
               then (Inl CommitFailed, db1\<lparr>actions := mark_rows gid ids (actions db1)\<rparr>)
             else if truthy narrative \<and> log_event_fails f
               then (Inl CommitFailed,
                     db1\<lparr>actions := mark_rows gid ids (actions db1),
                         sessions := advance_rows now gid (sessions db1)\<rparr>)
             else (Inr narrative,
                   db1\<lparr>actions := mark_rows gid ids (actions db1),
                       sessions := advance_rows now gid (sessions db1),
                       logs := logs db1 @
                         (if truthy narrative then [narrative_row now gid gs (the narrative)]
                          else [])\<rparr>))"
    proof -
      assume "go"
      then have a: "gs_status gs = ''active''"
        and p: "gs_pending_actions gs \<noteq> [] \<or> force"
        and s: "should_process_round cfg now gs (gs_pending_actions gs) force"
        by (auto simp: assms(7))
      have n: "narrative = generate_narrative cb gs (map fst prepared)"
        by (simp add: assms(4,6))
      from process_round_try_outcome [OF g a p s assms(3) assms(5) n]
      show ?thesis by (simp only: assms(2))
    qed
    have RT: "R = (case T of (Inl e, db') \<Rightarrow> (Inr None, (db', ar))
                    | (Inr n, db') \<Rightarrow> (Inr n, (db', ar)))"
      unfolding assms(1,2) by (rule process_round_of_try [OF held])
    from decline narr resolved
    show "(\<not> go \<longrightarrow> R = (Inr None, (db1, ar)))
       \<and> (go \<and> ids \<noteq> [] \<and> mark_processed_fails f
            \<longrightarrow> T = (Inl CommitFailed, db1) \<and> R = (Inr None, (db1, ar)))
       \<and> (go \<and> \<not> (ids \<noteq> [] \<and> mark_processed_fails f) \<and> round_update_fails f
            \<longrightarrow> T = (Inl CommitFailed, db1\<lparr>actions := mark_rows gid ids (actions db1)\<rparr>)
                \<and> R = (Inr None, (db1\<lparr>actions := mark_rows gid ids (actions db1)\<rparr>, ar)))
       \<and> (go \<and> \<not> (ids \<noteq> [] \<and> mark_processed_fails f) \<and> \<not> round_update_fails f
              \<and> truthy narrative \<and> log_event_fails f
            \<longrightarrow> T = (Inl CommitFailed,
                      db1\<lparr>actions := mark_rows gid ids (actions db1),
                          sessions := advance_rows now gid (sessions db1)\<rparr>)
                \<and> R = (Inr None,
                       (db1\<lparr>actions := mark_rows gid ids (actions db1),
                            sessions := advance_rows now gid (sessions db1)\<rparr>, ar)))
       \<and> (go \<and> \<not> (ids \<noteq> [] \<and> mark_processed_fails f) \<and> \<not> round_update_fails f
              \<and> \<not> (truthy narrative \<and> log_event_fails f)
            \<longrightarrow> fst T = Inr narrative \<and> fst R = Inr narrative)
       \<and> (pas \<noteq> [] \<and> (\<exists>c. cb = Some c \<and> c gs pas = Raised)
            \<longrightarrow> narrative = Some (actions_unfold pas))"
      by (auto simp: RT)
  qed
  from A B C D E show ?thesis by (intro conjI)
qed

text \<open>The session commit raises on Thorne's game.\<close>

theorem C9_no_error_leaves_witness:
  "process_round_try default_settings 5 round_update_fault None 1 False thorne_db
     = (Inl CommitFailed, thorne_db\<lparr>actions := [attack\<lparr>a_processed := True\<rparr>]\<rparr>)
   \<and> process_round default_settings 5 round_update_fault None 1 False (thorne_db, {})
     = (Inr None, (thorne_db\<lparr>actions := [attack\<lparr>a_processed := True\<rparr>]\<rparr>, {}))"
proof -
  have ids: "map snd (prepare_actions thorne_db (gs_players thorne_gs)
               (gs_pending_actions thorne_gs)) = [1]"
    by (rule thorne_reach(5))
  have go: "gs_status thorne_gs = ''active'' \<and> (gs_pending_actions thorne_gs \<noteq> [] \<or> False)
              \<and> should_process_round default_settings 5 thorne_gs
                   (gs_pending_actions thorne_gs) False"
    using thorne_reach(2) [of False] thorne_reach(3) [of 5 False] thorne_gs_eval(1) by simp
  have marked: "mark_rows 1 [1] (actions thorne_db) = [attack\<lparr>a_processed := True\<rparr>]"
    by (simp add: mark_rows_def thorne_db_def attack_def)
  have flt: "round_update_fails round_update_fault \<and> \<not> mark_processed_fails round_update_fault"
    by (simp add: round_update_fault_def no_faults_def)
  have h: "(1::int) \<notin> {} \<and> get_game_state 5 round_update_fault 1 thorne_db
             = (Inr (Some thorne_gs), thorne_db)"
    by (simp add: thorne_loaded)
  note inst = C9_no_error_leaves [OF refl refl refl refl refl refl refl,
      where cfg = default_settings and now = 5 and f = round_update_fault and cb = None
        and gid = 1 and force = False and db = thorne_db and ar = "{}" and gs = thorne_gs
        and ?db1.0 = thorne_db and game = "game1 ACTIVE"]
  from inst h go flt
  show ?thesis
    unfolding ids marked by simp
qed

section \<open>C10: a forced round with nothing pending\<close>

text \<open>
  C10: on an ACTIVE game with no pending action, \<^verbatim>\<open>process_round\<close> with force set
  (and the token free, and no commit failing) adds 1 to the round number, clears
  \<^verbatim>\<open>current_turn\<close>, returns nothing and appends no log entry; the actions are untouched.
\<close>

theorem C10_forced_empty_round:
  assumes "find (\<lambda>g. g_id g = gid) (games db) = Some game"
    and "g_status game = ACTIVE"
    and "filter (\<lambda>a. a_game_id a = gid \<and> \<not> a_processed a) (actions db) = []"
    and "gid \<notin> ar"
    and "\<not> session_create_fails f" and "\<not> round_update_fails f"
    and "R = process_round cfg now f cb gid True (db, ar)"
  shows "fst R = Inr None
    \<and> round_of (fst (snd R)) gid = Some (round_base db gid + 1)
    \<and> turn_of (fst (snd R)) gid = Some None
    \<and> logs (fst (snd R)) = logs db
    \<and> actions (fst (snd R)) = actions db
    \<and> snd (snd R) = ar"
proof -
  obtain r db1 where g: "get_game_state now f gid db = (r, db1)"
    by (cases "get_game_state now f gid db")
  from g assms(1,5) obtain gs where r: "r = Inr (Some gs)"
    by (auto simp: get_game_state_found split: option.splits)
  note g' = g [unfolded r]
  from get_game_state_loaded [OF g'] assms(1,2)
  have a: "gs_status gs = ''active''"
    by (auto simp: snapshot_def)
  have p: "gs_pending_actions gs = []"
    using loaded_round(2) [OF g'] assms(3) by (simp add: pending_actions_of_def)
  have f: "gs_pending_actions gs \<noteq> [] \<or> True" by simp
  have s: "should_process_round cfg now gs (gs_pending_actions gs) True"
    by (simp add: should_process_round_def)
  note out = process_round_outcome [OF assms(4) g' a f s refl refl refl, of cb,
      folded assms(7)]
  from loaded_round(1) [OF g']
  obtain s0 where s0: "find (\<lambda>s. s_game_id s = gid) (sessions db1) = Some s0"
    and n: "s_round_number s0 = gs_round_number gs"
    by (auto simp: round_of_def)
  have b: "round_base db gid = gs_round_number gs"
    using round_base_loaded [OF g', of gid] loaded_round(1) [OF g']
    by (simp add: round_base_def)
  show ?thesis
    using assms(6) s0 n b loaded_round(3,4) [OF g']
    by (simp add: out p generate_narrative_def truthy_def mark_rows_Nil find_advance_rows
          round_of_def turn_of_def)
qed

text \<open>Thorne's game with nothing pending goes from round 1 to round 2.\<close>

theorem C10_forced_empty_round_witness:
  "fst (process_round default_settings 5 no_faults None 1 True (idle_db, {})) = Inr None
   \<and> round_of (fst (snd (process_round default_settings 5 no_faults None 1 True
        (idle_db, {})))) 1 = Some 2
   \<and> turn_of (fst (snd (process_round default_settings 5 no_faults None 1 True
        (idle_db, {})))) 1 = Some None
   \<and> turn_of idle_db 1 = Some (Some 1)
   \<and> logs (fst (snd (process_round default_settings 5 no_faults None 1 True
        (idle_db, {})))) = []"
proof -
  have h1: "find (\<lambda>g. g_id g = 1) (games idle_db) = Some (game1 ACTIVE)"
    by (simp add: idle_db_def thorne_db_def game1_def)
  have h2: "g_status (game1 ACTIVE) = ACTIVE" by (simp add: game1_def)
  have h3: "filter (\<lambda>a. a_game_id a = 1 \<and> \<not> a_processed a) (actions idle_db) = []"
    by (simp add: idle_db_def)
  have h4: "(1::int) \<notin> {}" by simp
  have b: "round_base idle_db 1 = 1" by code_simp
  have t: "turn_of idle_db 1 = Some (Some 1)" by code_simp
  have l: "logs idle_db = []" by (simp add: idle_db_def thorne_db_def)
  from C10_forced_empty_round [OF h1 h2 h3 h4 no_faults_eval(1) no_faults_eval(3) refl,
      of default_settings 5 None] b t l
  show ?thesis by simp
qed

section \<open>C8: overlapping calls for one game\<close>

lemma finish_round_tokens:
  "finish_round now f ctx n (db, held) = (r, (db', ar')) \<Longrightarrow> ar' = held - {ctx_game_id ctx}"
  by (auto simp: finish_round_def split: prod.splits sum.splits)

lemma begin_busy:
  "gid \<in> ar \<Longrightarrow>
   process_round_begin cfg now f cb gid force (db, ar) = (Finished (Inr None), (db, ar))"
  by (simp add: process_round_begin_def)

lemma begin_finished:
  assumes "process_round_begin cfg now f cb gid force (db, ar) = (Finished r, (db', ar'))"
  shows "ar' = ar"
proof (cases "gid \<in> ar")
  case True
  with assms show ?thesis by (simp add: begin_busy)
next
  case False
  then have e: "insert gid ar - {gid} = ar" by auto
  show ?thesis
    using assms False
    by (auto simp: process_round_begin_def Let_def e
          split: prod.splits sum.splits option.splits if_splits
          dest!: finish_round_tokens)
qed

lemma begin_suspended:
  assumes "process_round_begin cfg now f cb gid force (db, ar) = (Suspended ctx, (db', ar'))"
  shows "gid \<notin> ar \<and> ar' = insert gid ar \<and> ctx_game_id ctx = gid"
  using assms
  by (auto simp: process_round_begin_def Let_def
        split: prod.splits sum.splits option.splits if_splits)

lemma resume_tokens:
  assumes "process_round_resume now f ctx answer (db, ar) = (r, (db', ar'))"
  shows "ar' = ar - {ctx_game_id ctx}"
  using assms unfolding process_round_resume_def by (rule finish_round_tokens)

lemma process_round_split:
  "process_round cfg now f cb gid force st =
     (case process_round_begin cfg now f cb gid force st of
        (Finished r, st') \<Rightarrow> (r, st')
      | (Suspended ctx, st') \<Rightarrow>
          (case cb of
             Some callback \<Rightarrow>
               process_round_resume now f ctx
                 (callback (ctx_game_state ctx) (ctx_player_actions ctx)) st'
           | None \<Rightarrow> (Inr None, st')))"
proof -
  obtain db ar where st: "st = (db, ar)" by (cases st)
  show ?thesis
    unfolding st
    by (auto simp: process_round_def process_round_try_def process_round_begin_def
          process_round_resume_def finish_round_def generate_narrative_def Let_def
          split: prod.splits sum.splits option.splits callback_result.splits)
qed

lemma keys_insert:
  assumes "m n = None"
  shows "{g. \<exists>t c. (m(n \<mapsto> x)) t = Some c \<and> k c = g}
           = insert (k x) {g. \<exists>t c. m t = Some c \<and> k c = g}"
proof (rule set_eqI)
  fix g
  show "g \<in> {g. \<exists>t c. (m(n \<mapsto> x)) t = Some c \<and> k c = g}
          \<longleftrightarrow> g \<in> insert (k x) {g. \<exists>t c. m t = Some c \<and> k c = g}"
  proof
    assume "g \<in> {g. \<exists>t c. (m(n \<mapsto> x)) t = Some c \<and> k c = g}"
    then obtain t c where tc: "(m(n \<mapsto> x)) t = Some c" and g: "k c = g" by blast
    show "g \<in> insert (k x) {g. \<exists>t c. m t = Some c \<and> k c = g}"
    proof (cases "t = n")
      case True
      with tc g show ?thesis by simp
    next
      case False
      with tc have "m t = Some c" by simp
      with g show ?thesis by blast
    qed
  next
    assume "g \<in> insert (k x) {g. \<exists>t c. m t = Some c \<and> k c = g}"
    then consider "g = k x" | t c where "m t = Some c" "k c = g" by blast
    then show "g \<in> {g. \<exists>t c. (m(n \<mapsto> x)) t = Some c \<and> k c = g}"
    proof cases
      case 1
      have "(m(n \<mapsto> x)) n = Some x" by simp
      with 1 show ?thesis by blast
    next
      case 2
      from 2(1) assms have "t \<noteq> n" by auto
      with 2(1) have "(m(n \<mapsto> x)) t = Some c" by simp
      with 2(2) show ?thesis by blast
    qed
  qed
qed

lemma keys_remove:
  assumes u: "\<And>t1 t2 c1 c2. m t1 = Some c1 \<Longrightarrow> m t2 = Some c2 \<Longrightarrow> k c1 = k c2 \<Longrightarrow> t1 = t2"
    and x: "m n = Some x"
  shows "{g. \<exists>t c. (m(n := None)) t = Some c \<and> k c = g}
           = {g. \<exists>t c. m t = Some c \<and> k c = g} - {k x}"
proof (rule set_eqI)
  fix g
  show "g \<in> {g. \<exists>t c. (m(n := None)) t = Some c \<and> k c = g}
          \<longleftrightarrow> g \<in> {g. \<exists>t c. m t = Some c \<and> k c = g} - {k x}"
  proof
    assume "g \<in> {g. \<exists>t c. (m(n := None)) t = Some c \<and> k c = g}"
    then obtain t c where tc: "(m(n := None)) t = Some c" and g: "k c = g" by blast
    from tc have tn: "t \<noteq> n" by (auto split: if_splits)
    with tc have mt: "m t = Some c" by simp
    have "k c \<noteq> k x"
    proof
      assume "k c = k x"
      from u [OF mt x this] tn show False by simp
    qed
    with mt g show "g \<in> {g. \<exists>t c. m t = Some c \<and> k c = g} - {k x}" by blast
  next
    assume "g \<in> {g. \<exists>t c. m t = Some c \<and> k c = g} - {k x}"
    then obtain t c where mt: "m t = Some c" and g: "k c = g" and ne: "g \<noteq> k x" by blast
    from mt x g ne have "t \<noteq> n" by auto
    with mt have "(m(n := None)) t = Some c" by simp
    with g show "g \<in> {g. \<exists>t c. (m(n := None)) t = Some c \<and> k c = g}" by blast
  qed
qed

lemma unique_insert:
  assumes u: "\<And>t1 t2 c1 c2. m t1 = Some c1 \<Longrightarrow> m t2 = Some c2 \<Longrightarrow> k c1 = k c2 \<Longrightarrow> t1 = t2"
    and new: "\<And>t c. m t = Some c \<Longrightarrow> k c \<noteq> k x"
    and a: "(m(n \<mapsto> x)) t1 = Some c1" and b: "(m(n \<mapsto> x)) t2 = Some c2"
    and e: "k c1 = k c2"
  shows "t1 = t2"
proof (cases "t1 = n")
  case t1: True
  with a have c1: "c1 = x" by simp
  show ?thesis
  proof (cases "t2 = n")
    case True
    with t1 show ?thesis by simp
  next
    case False
    with b have "m t2 = Some c2" by simp
    from new [OF this] e c1 show ?thesis by simp
  qed
next
  case t1: False
  with a have m1: "m t1 = Some c1" by simp
  show ?thesis
  proof (cases "t2 = n")
    case True
    with b have "c2 = x" by simp
    with new [OF m1] e show ?thesis by simp
  next
    case False
    with b have "m t2 = Some c2" by simp
    from u [OF m1 this e] show ?thesis .
  qed
qed

lemma unique_remove:
  assumes u: "\<And>t1 t2 c1 c2. m t1 = Some c1 \<Longrightarrow> m t2 = Some c2 \<Longrightarrow> k c1 = k c2 \<Longrightarrow> t1 = t2"
    and a: "(m(n := None)) t1 = Some c1" and b: "(m(n := None)) t2 = Some c2"
    and e: "k c1 = k c2"
  shows "t1 = t2"
proof -
  from a have "m t1 = Some c1" by (auto split: if_splits)
  moreover from b have "m t2 = Some c2" by (auto split: if_splits)
  ultimately show ?thesis using e by (rule u)
qed

lemma loop_inv_initial: "loop_inv (initial db)"
  by (simp add: loop_inv_def initial_def)

lemma loop_invI:
  assumes "\<And>t ctx. ls_suspended s t = Some ctx \<Longrightarrow> t < ls_next_task s"
    and "\<And>t1 t2 c1 c2. ls_suspended s t1 = Some c1 \<Longrightarrow> ls_suspended s t2 = Some c2
           \<Longrightarrow> ctx_game_id c1 = ctx_game_id c2 \<Longrightarrow> t1 = t2"
    and "ls_active_rounds s = {g. \<exists>t ctx. ls_suspended s t = Some ctx \<and> ctx_game_id ctx = g}"
  shows "loop_inv s"
  unfolding loop_inv_def using assms by blast

lemma loop_inv_bound:
  "loop_inv s \<Longrightarrow> ls_suspended s t = Some ctx \<Longrightarrow> t < ls_next_task s"
  unfolding loop_inv_def by blast

lemma loop_inv_unique:
  "loop_inv s \<Longrightarrow> ls_suspended s t1 = Some c1 \<Longrightarrow> ls_suspended s t2 = Some c2
     \<Longrightarrow> ctx_game_id c1 = ctx_game_id c2 \<Longrightarrow> t1 = t2"
  unfolding loop_inv_def by blast

lemma loop_inv_tokens:
  "loop_inv s \<Longrightarrow>
   ls_active_rounds s = {g. \<exists>t ctx. ls_suspended s t = Some ctx \<and> ctx_game_id ctx = g}"
  unfolding loop_inv_def by blast

lemma loop_step_inv:
  assumes inv: "loop_inv s"
  shows "loop_inv (loop_step cfg cb e s)"
proof (cases e)
  case (Start gid force now f)
  obtain br db' ar' where
    b: "process_round_begin cfg now f cb gid force (ls_store s, ls_active_rounds s)
          = (br, (db', ar'))"
    by (metis surj_pair)
  show ?thesis
  proof (cases br)
    case (Finished r)
    from begin_finished [OF b [unfolded Finished]] have a: "ar' = ls_active_rounds s" .
    have step: "loop_step cfg cb e s =
        s\<lparr>ls_store := db', ls_active_rounds := ar', ls_next_task := Suc (ls_next_task s),
          ls_returned := ls_returned s @ [(ls_next_task s, r)]\<rparr>"
      by (simp add: Start b Finished)
    show ?thesis
      unfolding step
    proof (rule loop_invI)
      fix t ctx
      assume "ls_suspended (s\<lparr>ls_store := db', ls_active_rounds := ar',
          ls_next_task := Suc (ls_next_task s),
          ls_returned := ls_returned s @ [(ls_next_task s, r)]\<rparr>) t = Some ctx"
      then have "ls_suspended s t = Some ctx" by simp
      from loop_inv_bound [OF inv this]
      show "t < ls_next_task (s\<lparr>ls_store := db', ls_active_rounds := ar',
          ls_next_task := Suc (ls_next_task s),
          ls_returned := ls_returned s @ [(ls_next_task s, r)]\<rparr>)"
        by simp
    next
      fix t1 t2 c1 c2
      assume "ls_suspended (s\<lparr>ls_store := db', ls_active_rounds := ar',
          ls_next_task := Suc (ls_next_task s),
          ls_returned := ls_returned s @ [(ls_next_task s, r)]\<rparr>) t1 = Some c1"
        and "ls_suspended (s\<lparr>ls_store := db', ls_active_rounds := ar',
          ls_next_task := Suc (ls_next_task s),
          ls_returned := ls_returned s @ [(ls_next_task s, r)]\<rparr>) t2 = Some c2"
        and e: "ctx_game_id c1 = ctx_game_id c2"
      then have "ls_suspended s t1 = Some c1" and "ls_suspended s t2 = Some c2" by simp_all
      from loop_inv_unique [OF inv this e] show "t1 = t2" .
    next
      show "ls_active_rounds (s\<lparr>ls_store := db', ls_active_rounds := ar',
          ls_next_task := Suc (ls_next_task s),
          ls_returned := ls_returned s @ [(ls_next_task s, r)]\<rparr>) =
        {g. \<exists>t ctx. ls_suspended (s\<lparr>ls_store := db', ls_active_rounds := ar',
          ls_next_task := Suc (ls_next_task s),
          ls_returned := ls_returned s @ [(ls_next_task s, r)]\<rparr>) t = Some ctx
            \<and> ctx_game_id ctx = g}"
        using loop_inv_tokens [OF inv] by (simp add: a)
    qed
  next
    case (Suspended ctx)
    from begin_suspended [OF b [unfolded Suspended]]
    have n: "gid \<notin> ls_active_rounds s" and a: "ar' = insert gid (ls_active_rounds s)"
      and c: "ctx_game_id ctx = gid"
      by auto
    let ?m = "ls_suspended s" and ?n = "ls_next_task s"
    have free: "?m ?n = None"
    proof (cases "?m ?n")
      case None
      then show ?thesis .
    next
      case (Some x)
      from loop_inv_bound [OF inv Some] show ?thesis by simp
    qed
    have none: "ctx_game_id c' \<noteq> ctx_game_id ctx" if "?m t = Some c'" for t c'
    proof
      assume "ctx_game_id c' = ctx_game_id ctx"
      with that c have "gid \<in> {g. \<exists>t ctx. ?m t = Some ctx \<and> ctx_game_id ctx = g}" by blast
      then have "gid \<in> ls_active_rounds s"
        by (subst loop_inv_tokens [OF inv])
      with n show False by contradiction
    qed
    have step: "loop_step cfg cb e s =
        s\<lparr>ls_store := db', ls_active_rounds := ar',
          ls_suspended := ?m(?n \<mapsto> ctx), ls_next_task := Suc ?n\<rparr>"
      by (simp add: Start b Suspended)
    show ?thesis
      unfolding step
    proof (rule loop_invI)
      fix t x
      assume "ls_suspended (s\<lparr>ls_store := db', ls_active_rounds := ar',
          ls_suspended := ?m(?n \<mapsto> ctx), ls_next_task := Suc ?n\<rparr>) t = Some x"
      then have h: "(?m(?n \<mapsto> ctx)) t = Some x" by simp
      have "t < Suc ?n"
      proof (cases "t = ?n")
        case True
        then show ?thesis by simp
      next
        case False
        with h have "?m t = Some x" by simp
        from loop_inv_bound [OF inv this] show ?thesis by simp
      qed
      then show "t < ls_next_task (s\<lparr>ls_store := db', ls_active_rounds := ar',
          ls_suspended := ?m(?n \<mapsto> ctx), ls_next_task := Suc ?n\<rparr>)"
        by simp
    next
      fix t1 t2 c1 c2
      assume "ls_suspended (s\<lparr>ls_store := db', ls_active_rounds := ar',
          ls_suspended := ?m(?n \<mapsto> ctx), ls_next_task := Suc ?n\<rparr>) t1 = Some c1"
        and "ls_suspended (s\<lparr>ls_store := db', ls_active_rounds := ar',
          ls_suspended := ?m(?n \<mapsto> ctx), ls_next_task := Suc ?n\<rparr>) t2 = Some c2"
        and e: "ctx_game_id c1 = ctx_game_id c2"
      then have h1: "(?m(?n \<mapsto> ctx)) t1 = Some c1" and h2: "(?m(?n \<mapsto> ctx)) t2 = Some c2"
        by simp_all
      show "t1 = t2"
        by (rule unique_insert [where m = ?m and k = ctx_game_id, OF _ _ h1 h2 e])
           (erule (2) loop_inv_unique [OF inv], erule none)
    next
      have "ls_active_rounds (s\<lparr>ls_store := db', ls_active_rounds := ar',
          ls_suspended := ?m(?n \<mapsto> ctx), ls_next_task := Suc ?n\<rparr>)
          = insert (ctx_game_id ctx) {g. \<exists>t c. ?m t = Some c \<and> ctx_game_id c = g}"
        using loop_inv_tokens [OF inv] by (simp add: a c)
      also have "\<dots> = {g. \<exists>t c. (?m(?n \<mapsto> ctx)) t = Some c \<and> ctx_game_id c = g}"
        by (rule keys_insert [where m = ?m and n = ?n and k = ctx_game_id and x = ctx,
              OF free, symmetric])
      finally show "ls_active_rounds (s\<lparr>ls_store := db', ls_active_rounds := ar',
          ls_suspended := ?m(?n \<mapsto> ctx), ls_next_task := Suc ?n\<rparr>) =
        {g. \<exists>t c. ls_suspended (s\<lparr>ls_store := db', ls_active_rounds := ar',
          ls_suspended := ?m(?n \<mapsto> ctx), ls_next_task := Suc ?n\<rparr>) t = Some c
            \<and> ctx_game_id c = g}"
        by simp
    qed
  qed
next
  case (Resume t answer now f)
  show ?thesis
  proof (cases "ls_suspended s t")
    case None
    with inv show ?thesis by (simp add: Resume)
  next
    case (Some ctx)
    obtain r db' ar' where
      p: "process_round_resume now f ctx answer (ls_store s, ls_active_rounds s)
            = (r, (db', ar'))"
      by (metis surj_pair)
    from resume_tokens [OF p] have a: "ar' = ls_active_rounds s - {ctx_game_id ctx}" .
    let ?m = "ls_suspended s"
    have step: "loop_step cfg cb e s =
        s\<lparr>ls_store := db', ls_active_rounds := ar',
          ls_suspended := ?m(t := None),
          ls_returned := ls_returned s @ [(t, r)]\<rparr>"
      by (simp add: Resume Some p)
    show ?thesis
      unfolding step
    proof (rule loop_invI)
      fix t' x
      assume "ls_suspended (s\<lparr>ls_store := db', ls_active_rounds := ar',
          ls_suspended := ?m(t := None), ls_returned := ls_returned s @ [(t, r)]\<rparr>) t'
            = Some x"
      then have "?m t' = Some x" by (auto split: if_splits)
      from loop_inv_bound [OF inv this]
      show "t' < ls_next_task (s\<lparr>ls_store := db', ls_active_rounds := ar',
          ls_suspended := ?m(t := None), ls_returned := ls_returned s @ [(t, r)]\<rparr>)"
        by simp
    next
      fix t1 t2 c1 c2
      assume "ls_suspended (s\<lparr>ls_store := db', ls_active_rounds := ar',
          ls_suspended := ?m(t := None), ls_returned := ls_returned s @ [(t, r)]\<rparr>) t1
            = Some c1"
        and "ls_suspended (s\<lparr>ls_store := db', ls_active_rounds := ar',
          ls_suspended := ?m(t := None), ls_returned := ls_returned s @ [(t, r)]\<rparr>) t2
            = Some c2"
        and e: "ctx_game_id c1 = ctx_game_id c2"
      then have h1: "(?m(t := None)) t1 = Some c1" and h2: "(?m(t := None)) t2 = Some c2"
        by simp_all
      show "t1 = t2"
        by (rule unique_remove [where m = ?m and k = ctx_game_id, OF _ h1 h2 e])
           (erule (2) loop_inv_unique [OF inv])
    next
      have "{g. \<exists>t' c. (?m(t := None)) t' = Some c \<and> ctx_game_id c = g}
              = {g. \<exists>t' c. ?m t' = Some c \<and> ctx_game_id c = g} - {ctx_game_id ctx}"
        by (rule keys_remove [where m = ?m and k = ctx_game_id, OF _ Some])
           (erule (2) loop_inv_unique [OF inv])
      then show "ls_active_rounds (s\<lparr>ls_store := db', ls_active_rounds := ar',
          ls_suspended := ?m(t := None), ls_returned := ls_returned s @ [(t, r)]\<rparr>) =
        {g. \<exists>t' c. ls_suspended (s\<lparr>ls_store := db', ls_active_rounds := ar',
          ls_suspended := ?m(t := None), ls_returned := ls_returned s @ [(t, r)]\<rparr>) t'
            = Some c \<and> ctx_game_id c = g}"
        using loop_inv_tokens [OF inv] by (simp add: a)
    qed
  qed
next
  case (Enqueue now fails gid pid msg)
  with inv show ?thesis by (simp add: loop_inv_def)
qed

lemma run_schedule_inv:
  "loop_inv s \<Longrightarrow> loop_inv (run_schedule cfg cb es s)"
  by (induction es arbitrary: s) (simp_all add: loop_step_inv)

lemma start_busy:
  assumes "gid \<in> ls_active_rounds s"
  shows "loop_step cfg cb (Start gid force now f) s =
           s\<lparr>ls_next_task := Suc (ls_next_task s),
             ls_returned := ls_returned s @ [(ls_next_task s, Inr None)]\<rparr>"
  using assms by (simp add: begin_busy)

lemma in_flight_card:
  assumes "loop_inv s"
  shows "finite (in_flight s gid) \<and> card (in_flight s gid) \<le> 1"
proof (cases "in_flight s gid = {}")
  case True
  then show ?thesis by simp
next
  case False
  then obtain t where t: "t \<in> in_flight s gid" by blast
  then obtain c where c: "ls_suspended s t = Some c" "ctx_game_id c = gid"
    by (auto simp: in_flight_def)
  have "in_flight s gid \<subseteq> {t}"
  proof
    fix t'
    assume "t' \<in> in_flight s gid"
    then obtain c' where c': "ls_suspended s t' = Some c'" "ctx_game_id c' = gid"
      by (auto simp: in_flight_def)
    from loop_inv_unique [OF assms c'(1) c(1)] c'(2) c(2) show "t' \<in> {t}" by simp
  qed
  then have "finite (in_flight s gid)" and "card (in_flight s gid) \<le> card {t}"
    by (rule finite_subset, simp, intro card_mono, simp_all)
  then show ?thesis by simp
qed

text \<open>
  C8: whatever the schedule, started from an engine with no call in flight, at most one
  call per game is in flight (suspended at the narrator with the token held) at any
  instant, and the keys of \<^verbatim>\<open>active_rounds\<close> are exactly the games with a call in
  flight. A call that starts for a game while another is in flight ends in the same
  step: it returns nothing, is not suspended or queued, and leaves the store, the tokens
  and the suspended call as they were. So of two calls that overlap, exactly one is past
  the exclusion check. (A call that never reaches the narrator runs to its end in one
  step, so no other call overlaps it.)
\<close>

theorem C8_one_resolution_in_flight:
  assumes "S = run_schedule cfg cb evs (initial db)"
  shows "(\<forall>gid. finite (in_flight S gid) \<and> card (in_flight S gid) \<le> 1)
    \<and> (\<forall>t1 t2 c1 c2. ls_suspended S t1 = Some c1 \<and> ls_suspended S t2 = Some c2
          \<and> ctx_game_id c1 = ctx_game_id c2 \<longrightarrow> t1 = t2)
    \<and> ls_active_rounds S = {g. in_flight S g \<noteq> {}}
    \<and> (\<forall>t c force now f. ls_suspended S t = Some c \<longrightarrow>
          loop_step cfg cb (Start (ctx_game_id c) force now f) S =
            S\<lparr>ls_next_task := Suc (ls_next_task S),
              ls_returned := ls_returned S @ [(ls_next_task S, Inr None)]\<rparr>)"
proof -
  have inv: "loop_inv S"
    unfolding assms by (rule run_schedule_inv [OF loop_inv_initial])
  have tok: "ls_active_rounds S = {g. in_flight S g \<noteq> {}}"
    unfolding loop_inv_tokens [OF inv] in_flight_def by blast
  have busy: "loop_step cfg cb (Start (ctx_game_id c) force now f) S =
            S\<lparr>ls_next_task := Suc (ls_next_task S),
              ls_returned := ls_returned S @ [(ls_next_task S, Inr None)]\<rparr>"
    if "ls_suspended S t = Some c" for t c force now f
  proof (rule start_busy)
    from that have "t \<in> in_flight S (ctx_game_id c)" by (simp add: in_flight_def)
    then show "ctx_game_id c \<in> ls_active_rounds S" unfolding tok by blast
  qed
  have uniq: "\<forall>t1 t2 c1 c2. ls_suspended S t1 = Some c1 \<and> ls_suspended S t2 = Some c2
          \<and> ctx_game_id c1 = ctx_game_id c2 \<longrightarrow> t1 = t2"
    using loop_inv_unique [OF inv] by blast
  from in_flight_card [OF inv] uniq tok busy show ?thesis by blast
qed

lemma thorne_begin:
  "process_round_begin default_settings 5 no_faults (Some raising) 1 False (thorne_db, {})
     = (Suspended thorne_ctx, (thorne_db, {1}))"
  using thorne_reach(3) [of 5 False]
  by (simp add: process_round_begin_def thorne_loaded thorne_gs_eval thorne_prepared
        thorne_ctx_def Let_def del: prepare_actions.simps)

lemma thorne_first_step:
  "run_schedule default_settings (Some raising) [Start 1 False 5 no_faults] (initial thorne_db)
     = \<lparr>ls_store = thorne_db, ls_active_rounds = {1},
        ls_suspended = (\<lambda>t. None)(0 \<mapsto> thorne_ctx), ls_next_task = 1, ls_returned = []\<rparr>"
  by (simp add: initial_def thorne_begin)

text \<open>
  Thorne's game with a narrator: the first call is suspended, a second, forced call
  returns nothing at once and changes nothing, and the first then finishes the round.
\<close>

theorem C8_one_resolution_in_flight_witness:
  "ls_store (run_schedule default_settings (Some raising)
       [Start 1 False 5 no_faults, Start 1 True 6 no_faults] (initial thorne_db)) = thorne_db
   \<and> ls_active_rounds (run_schedule default_settings (Some raising)
       [Start 1 False 5 no_faults, Start 1 True 6 no_faults] (initial thorne_db)) = {1}
   \<and> ls_returned (run_schedule default_settings (Some raising)
       [Start 1 False 5 no_faults, Start 1 True 6 no_faults] (initial thorne_db))
       = [(1, Inr None)]
   \<and> ls_suspended (run_schedule default_settings (Some raising)
       [Start 1 False 5 no_faults, Start 1 True 6 no_faults] (initial thorne_db)) 0
       = Some thorne_ctx
   \<and> ls_returned (run_schedule default_settings (Some raising)
       [Start 1 False 5 no_faults, Start 1 True 6 no_faults, Resume 0 Raised 7 no_faults]
       (initial thorne_db))
       = [(1, Inr None), (0, Inr (Some ''*The actions unfold: attacks*''))]"
proof -
  let ?S1 = "run_schedule default_settings (Some raising) [Start 1 False 5 no_faults]
               (initial thorne_db)"
  have s: "ls_suspended ?S1 0 = Some thorne_ctx"
    by (simp only: thorne_first_step) simp
  have g: "ctx_game_id thorne_ctx = 1" by (simp add: thorne_ctx_def)
  from C8_one_resolution_in_flight [OF refl, of default_settings "Some raising"
      "[Start 1 False 5 no_faults]" thorne_db] s
  have "loop_step default_settings (Some raising) (Start (ctx_game_id thorne_ctx) True 6 no_faults)
          ?S1 = ?S1\<lparr>ls_next_task := Suc (ls_next_task ?S1),
              ls_returned := ls_returned ?S1 @ [(ls_next_task ?S1, Inr None)]\<rparr>"
    by blast
  then have two: "run_schedule default_settings (Some raising)
       [Start 1 False 5 no_faults, Start 1 True 6 no_faults] (initial thorne_db)
     = \<lparr>ls_store = thorne_db, ls_active_rounds = {1},
        ls_suspended = (\<lambda>t. None)(0 \<mapsto> thorne_ctx), ls_next_task = 2,
        ls_returned = [(1, Inr None)]\<rparr>"
    unfolding g thorne_first_step by (simp add: initial_def thorne_begin)
  have r: "fst (process_round_resume 7 no_faults thorne_ctx Raised (thorne_db, {1}))
             = Inr (Some ''*The actions unfold: attacks*'')"
    by code_simp
  have three: "run_schedule default_settings (Some raising)
       [Start 1 False 5 no_faults, Start 1 True 6 no_faults, Resume 0 Raised 7 no_faults]
       (initial thorne_db)
     = loop_step default_settings (Some raising) (Resume 0 Raised 7 no_faults)
         (run_schedule default_settings (Some raising)
            [Start 1 False 5 no_faults, Start 1 True 6 no_faults] (initial thorne_db))"
    by simp
  have last: "ls_returned (run_schedule default_settings (Some raising)
       [Start 1 False 5 no_faults, Start 1 True 6 no_faults, Resume 0 Raised 7 no_faults]
       (initial thorne_db))
       = [(1, Inr None), (0, Inr (Some ''*The actions unfold: attacks*''))]"
    unfolding three two using r by (simp add: case_prod_beta)
  show ?thesis
    unfolding last two by simp
qed

end
